theory Spec2Isabelle
  imports Main "HOL-Library.AList" "HOL-Library.Multiset"
begin

section \<open>Data model (selection/data.py)\<close>

text \<open>
  \<^verbatim>\<open>SelectionCategory\<close> is a closed enumeration; \<^verbatim>\<open>SelectionData\<close> is a mutable
  dataclass.  Python's unbounded integers are \<open>int\<close>, \<^verbatim>\<open>Optional[str]\<close> is
  \<open>string option\<close>.
\<close>

datatype SelectionCategory =
  CAPTION | TEXT | LIST_ITEM | TITLE | CONTACT | TABLE | IMAGE | HEADER | FOOTER
  | FORMULA | CONTAINER | UNKNOWN

record SelectionData =
  sel_id :: string
  doc :: string
  page :: int
  idx :: int
  coords :: "(int \<times> int) list"
  sel_text :: string
  category :: SelectionCategory
  sel_image :: string
  parent :: "string option"
  children :: "string list"
  description :: string

section \<open>Objects, references and the ordered dictionary\<close>

text \<open>
  The manager stores \<^emph>\<open>references\<close> to \<^verbatim>\<open>SelectableRegionItem\<close> objects and mutates
  their \<^verbatim>\<open>data\<close> fields in place; the command objects keep references to the very same
  items.  The embedding therefore has an explicit object store: a reference is an address,
  \<open>heap\<close> maps every address to the \<^verbatim>\<open>data\<close> of the item living there, and \<open>nxt\<close> is
  the next unused address (\<^verbatim>\<open>copy()\<close>, a deep copy, allocates there).  Only the \<^verbatim>\<open>data\<close>
  of an item is modelled; its polygon belongs to the GUI.

  \<open>model\<close> is \<^verbatim>\<open>SelectionsManager._selections\<close>, an \<^verbatim>\<open>OrderedDict\<close> from page number to
  a list of items: an association list in iteration order.
\<close>

type_synonym ref = nat

type_synonym odict = "(int \<times> ref list) list"

record world =
  heap :: "ref \<Rightarrow> SelectionData"
  nxt :: ref
  model :: odict

datatype py_error = KeyError | IndexError

datatype 'a outcome = Returned 'a | Raised py_error

subsection \<open>Python list primitives\<close>

text \<open>\<^verbatim>\<open>xs[i]\<close> and \<^verbatim>\<open>xs.pop(i)\<close>: a negative index counts from the end; out of range
  raises \<^verbatim>\<open>IndexError\<close> (here \<open>None\<close>).\<close>

definition py_index :: "'a list \<Rightarrow> int \<Rightarrow> nat option" where
  "py_index xs i =
     (let n = int (length xs); j = (if i < 0 then i + n else i)
      in if 0 \<le> j \<and> j < n then Some (nat j) else None)"

definition list_pop :: "'a list \<Rightarrow> int \<Rightarrow> 'a list option" where
  "list_pop xs i =
     (case py_index xs i of
        None \<Rightarrow> None
      | Some j \<Rightarrow> Some (take j xs @ drop (Suc j) xs))"

text \<open>\<^verbatim>\<open>xs.insert(i, x)\<close> never raises: the index is clamped into \<open>0..len\<close>.\<close>

definition list_insert :: "'a list \<Rightarrow> int \<Rightarrow> 'a \<Rightarrow> 'a list" where
  "list_insert xs i x =
     (let n = int (length xs);
          j0 = (if i < 0 then i + n else i);
          j = (if j0 < 0 then 0 else if j0 > n then n else j0)
      in take (nat j) xs @ [x] @ drop (nat j) xs)"

subsection \<open>OrderedDict primitives\<close>

text \<open>\<^verbatim>\<open>d[k] = v\<close> keeps the position of an existing key and appends a new key
  (\<open>AList.update\<close>); \<^verbatim>\<open>del d[k]\<close> is \<open>AList.delete\<close>; \<^verbatim>\<open>d.get(k, [])\<close> is \<open>od_get\<close>.\<close>

definition od_get :: "odict \<Rightarrow> int \<Rightarrow> ref list" where
  "od_get d k = (case map_of d k of None \<Rightarrow> [] | Some arr \<Rightarrow> arr)"

definition move_to_end :: "odict \<Rightarrow> int \<Rightarrow> odict" where
  "move_to_end d k =
     (case map_of d k of
        None \<Rightarrow> d
      | Some arr \<Rightarrow> AList.delete k d @ [(k, arr)])"

section \<open>SelectionsManager (selection/manager.py)\<close>

definition update_indexes ::
  "(ref \<Rightarrow> SelectionData) \<Rightarrow> ref \<Rightarrow> int \<Rightarrow> int \<Rightarrow> (ref \<Rightarrow> SelectionData)" where
  "update_indexes h sel supposed_page_number supposed_index =
     (let h1 = (if page (h sel) \<noteq> supposed_page_number
                then h(sel := (h sel)\<lparr>page := supposed_page_number\<rparr>) else h);
          h2 = (if idx (h1 sel) \<noteq> supposed_index
                then h1(sel := (h1 sel)\<lparr>idx := supposed_index\<rparr>) else h1)
      in h2)"

fun update_loop ::
  "(ref \<Rightarrow> SelectionData) \<Rightarrow> int \<Rightarrow> int \<Rightarrow> ref list \<Rightarrow> (ref \<Rightarrow> SelectionData)" where
  "update_loop h page_number cnt [] = h"
| "update_loop h page_number cnt (selection # rest) =
     update_loop (update_indexes h selection page_number cnt) page_number (cnt + 1) rest"

definition update_page_indexes ::
  "(ref \<Rightarrow> SelectionData) \<Rightarrow> odict \<Rightarrow> int \<Rightarrow> (ref \<Rightarrow> SelectionData)" where
  "update_page_indexes h selections page_number =
     update_loop h page_number 0 (od_get selections page_number)"

fun find_in_page ::
  "(ref \<Rightarrow> SelectionData) \<Rightarrow> string \<Rightarrow> int \<Rightarrow> ref list \<Rightarrow> (int \<times> ref) option" where
  "find_in_page h selection_id i [] = None"
| "find_in_page h selection_id i (selection # rest) =
     (if sel_id (h selection) = selection_id then Some (i, selection)
      else find_in_page h selection_id (i + 1) rest)"

fun find_selection_by_id ::
  "(ref \<Rightarrow> SelectionData) \<Rightarrow> odict \<Rightarrow> string \<Rightarrow> (int \<times> int \<times> ref) option" where
  "find_selection_by_id h [] selection_id = None"
| "find_selection_by_id h ((page_number, page_items) # rest) selection_id =
     (case find_in_page h selection_id 0 page_items of
        Some (i, selection) \<Rightarrow> Some (page_number, i, selection)
      | None \<Rightarrow> find_selection_by_id h rest selection_id)"

subsection \<open>InsertCmd\<close>

text \<open>
  \<^verbatim>\<open>insert_ordered(dictionary, value, key=None, idx=None)\<close>.  The new-key branch returns
  before any index is re-derived; the other branch returns the requested \<open>idx\<close>, not the
  clamped position, when \<open>idx \<ge> 0\<close>.
\<close>

definition insert_ordered ::
  "world \<Rightarrow> ref \<Rightarrow> int option \<Rightarrow> int option \<Rightarrow> (int \<times> int) \<times> world" where
  "insert_ordered w val key0 idx0 =
     (let key = (case key0 of None \<Rightarrow> page (heap w val) | Some k \<Rightarrow> k);
          i = (case idx0 of None \<Rightarrow> idx (heap w val) | Some j \<Rightarrow> j)
      in case map_of (model w) key of
           None \<Rightarrow>
             (let d1 = AList.update key [val] (model w);
                  keys_to_move = filter (\<lambda>k. k > key) (map fst d1);
                  d2 = foldl move_to_end d1 keys_to_move
              in ((key, 0), w\<lparr>model := d2\<rparr>))
         | Some arr \<Rightarrow>
             (if i < 0 then
                (let arr' = arr @ [val];
                     i' = int (length arr') - 1;
                     d' = AList.update key arr' (model w)
                 in ((key, i'), w\<lparr>heap := update_page_indexes (heap w) d' key, model := d'\<rparr>))
              else
                (let arr' = list_insert arr i val;
                     d' = AList.update key arr' (model w)
                 in ((key, i), w\<lparr>heap := update_page_indexes (heap w) d' key, model := d'\<rparr>))))"

text \<open>
  \<^verbatim>\<open>undo_insert_ordered(dictionary, key, idx)\<close>: \<^verbatim>\<open>dictionary[key]\<close> raises \<^verbatim>\<open>KeyError\<close>,
  which the \<^verbatim>\<open>except IndexError\<close> does not catch; an \<^verbatim>\<open>IndexError\<close> of \<^verbatim>\<open>pop\<close> is
  caught and printed, and the function returns with nothing changed.
\<close>

definition undo_insert_ordered :: "world \<Rightarrow> int \<Rightarrow> int \<Rightarrow> unit outcome \<times> world" where
  "undo_insert_ordered w key i =
     (case map_of (model w) key of
        None \<Rightarrow> (Raised KeyError, w)
      | Some arr \<Rightarrow>
          (case list_pop arr i of
             None \<Rightarrow> (Returned (), w)
           | Some arr' \<Rightarrow>
               (let d1 = AList.update key arr' (model w);
                    d2 = (if arr' = [] then AList.delete key d1 else d1)
                in (Returned (),
                    w\<lparr>heap := update_page_indexes (heap w) d2 key, model := d2\<rparr>))))"

record InsertCmd =
  ins_value :: ref
  ins_key :: "int option"
  ins_index :: "int option"

definition InsertCmd_init :: "ref \<Rightarrow> InsertCmd" where
  "InsertCmd_init v = \<lparr>ins_value = v, ins_key = None, ins_index = None\<rparr>"

definition InsertCmd_redo :: "InsertCmd \<Rightarrow> world \<Rightarrow> InsertCmd \<times> world" where
  "InsertCmd_redo c w =
     (case insert_ordered w (ins_value c) None None of
        ((k, i), w') \<Rightarrow> (c\<lparr>ins_key := Some k, ins_index := Some i\<rparr>, w'))"

text \<open>Before \<^verbatim>\<open>redo\<close> the key is \<^verbatim>\<open>None\<close>, which is no key of the dictionary.\<close>

definition InsertCmd_undo :: "InsertCmd \<Rightarrow> world \<Rightarrow> unit outcome \<times> world" where
  "InsertCmd_undo c w =
     (case (ins_key c, ins_index c) of
        (Some k, Some i) \<Rightarrow> undo_insert_ordered w k i
      | _ \<Rightarrow> (Raised KeyError, w))"

subsection \<open>InsertAllCmd\<close>

record InsertAllCmd =
  insall_values :: "ref list"
  insall_keys :: "int list"
  insall_indexes :: "int list"
  insall_append :: bool

definition InsertAllCmd_init :: "ref list \<Rightarrow> bool \<Rightarrow> InsertAllCmd" where
  "InsertAllCmd_init vs app =
     \<lparr>insall_values = vs, insall_keys = [], insall_indexes = [], insall_append = app\<rparr>"

fun insert_all_loop ::
  "bool \<Rightarrow> ref list \<Rightarrow> int list \<Rightarrow> int list \<Rightarrow> world \<Rightarrow> (int list \<times> int list) \<times> world" where
  "insert_all_loop app [] ks is w = ((ks, is), w)"
| "insert_all_loop app (v # vs) ks is w =
     (let i0 = (if app then - 1 else idx (heap w v))
      in case insert_ordered w v None (Some i0) of
           ((k, i), w') \<Rightarrow> insert_all_loop app vs (ks @ [k]) (is @ [i]) w')"

definition InsertAllCmd_redo :: "InsertAllCmd \<Rightarrow> world \<Rightarrow> InsertAllCmd \<times> world" where
  "InsertAllCmd_redo c w =
     (case insert_all_loop (insall_append c) (insall_values c) [] [] w of
        ((ks, is), w') \<Rightarrow> (c\<lparr>insall_keys := ks, insall_indexes := is\<rparr>, w'))"

text \<open>
  \<^verbatim>\<open>undo\<close> walks \<open>i = 0, 1, ...\<close> over \<^verbatim>\<open>self.values\<close> and undoes position
  \<open>len - (i + 1)\<close>; an exception leaves the loop.  \<open>undo_all_loop\<close> takes the positions
  still to undo, in the order the loop visits them.
\<close>

fun undo_all_loop :: "int list \<Rightarrow> int list \<Rightarrow> nat list \<Rightarrow> world \<Rightarrow> unit outcome \<times> world" where
  "undo_all_loop ks is [] w = (Returned (), w)"
| "undo_all_loop ks is (reverse_idx # rest) w =
     (if reverse_idx < length ks \<and> reverse_idx < length is then
        (case undo_insert_ordered w (ks ! reverse_idx) (is ! reverse_idx) of
           (Raised e, w') \<Rightarrow> (Raised e, w')
         | (Returned u, w') \<Rightarrow> undo_all_loop ks is rest w')
      else (Raised IndexError, w))"

definition InsertAllCmd_undo :: "InsertAllCmd \<Rightarrow> world \<Rightarrow> unit outcome \<times> world" where
  "InsertAllCmd_undo c w =
     undo_all_loop (insall_keys c) (insall_indexes c)
       (map (\<lambda>i. length (insall_values c) - (i + 1)) [0 ..< length (insall_values c)]) w"

subsection \<open>RemoveCmd\<close>

text \<open>
  \<^verbatim>\<open>remove_and_relink_children\<close>.  First loop: every id of \<^verbatim>\<open>selection.data.children\<close>
  is looked up; a child that is not found is skipped (\<^verbatim>\<open>continue\<close>), a found child gets
  the parent of the removed node.
\<close>

fun relink_loop ::
  "(ref \<Rightarrow> SelectionData) \<Rightarrow> odict \<Rightarrow> string option \<Rightarrow> string list \<Rightarrow> ref list
     \<Rightarrow> (ref \<Rightarrow> SelectionData) \<times> ref list" where
  "relink_loop h d parent_id [] children_acc = (h, children_acc)"
| "relink_loop h d parent_id (child_id # rest) children_acc =
     (case find_selection_by_id h d child_id of
        None \<Rightarrow> relink_loop h d parent_id rest children_acc
      | Some (_, _, child) \<Rightarrow>
          relink_loop (h(child := (h child)\<lparr>parent := parent_id\<rparr>)) d parent_id rest
            (children_acc @ [child]))"

text \<open>
  Second loop, over a snapshot of the pages: in each page the first item with the id of
  \<^verbatim>\<open>selection\<close> is removed (\<^verbatim>\<open>list.remove\<close> takes the first occurrence of that object).
  A page that becomes empty is deleted and the search goes on, since \<^verbatim>\<open>edited_page\<close>
  stays \<^verbatim>\<open>None\<close>; otherwise the loop ends there.
\<close>

fun remove_node_loop ::
  "(ref \<Rightarrow> SelectionData) \<Rightarrow> string \<Rightarrow> odict \<Rightarrow> odict \<Rightarrow> odict \<times> int option" where
  "remove_node_loop h sid [] d = (d, None)"
| "remove_node_loop h sid ((pg, page_items) # rest) d =
     (case find (\<lambda>sel. sel_id (h sel) = sid) page_items of
        None \<Rightarrow> remove_node_loop h sid rest d
      | Some sel \<Rightarrow>
          (let page_items' = remove1 sel page_items
           in if page_items' = [] then remove_node_loop h sid rest (AList.delete pg d)
              else (AList.update pg page_items' d, Some pg)))"

definition remove_and_relink_children :: "world \<Rightarrow> ref \<Rightarrow> ref list \<times> world" where
  "remove_and_relink_children w selection =
     (let parent_id = parent (heap w selection);
          (h1, children_acc) =
             relink_loop (heap w) (model w) parent_id (children (heap w selection)) [];
          (d1, edited_page) = remove_node_loop h1 (sel_id (h1 selection)) (model w) (model w);
          h2 = (case edited_page of None \<Rightarrow> h1 | Some pg \<Rightarrow> update_page_indexes h1 d1 pg)
      in (children_acc, w\<lparr>heap := h2, model := d1\<rparr>))"

record RemoveCmd =
  rm_value :: ref
  rm_node_children :: "ref list"

definition RemoveCmd_init :: "ref \<Rightarrow> RemoveCmd" where
  "RemoveCmd_init selection = \<lparr>rm_value = selection, rm_node_children = []\<rparr>"

definition RemoveCmd_redo :: "RemoveCmd \<Rightarrow> world \<Rightarrow> RemoveCmd \<times> world" where
  "RemoveCmd_redo c w =
     (case remove_and_relink_children w (rm_value c) of
        (cs, w') \<Rightarrow> (c\<lparr>rm_node_children := cs\<rparr>, w'))"

definition RemoveCmd_undo :: "RemoveCmd \<Rightarrow> world \<Rightarrow> world" where
  "RemoveCmd_undo c w =
     (let w1 = snd (insert_ordered w (rm_value c) None None);
          h2 = foldl (\<lambda>h child. h(child := (h child)\<lparr>parent := Some (sel_id (h (rm_value c)))\<rparr>))
                 (heap w1) (rm_node_children c)
      in w1\<lparr>heap := h2\<rparr>)"

subsection \<open>RemoveAllCmd\<close>

text \<open>
  \<^verbatim>\<open>remove_selections\<close>.  \<^verbatim>\<open>to_remove_id_list\<close> is a Python set, here a list without
  duplicates.  The list object \<^verbatim>\<open>page_items\<close> is mutated in place; once its key has been
  deleted it is no longer part of the dictionary (\<open>od_mutate\<close>).  The \<^verbatim>\<open>return\<close> inside the
  inner loop leaves the function before the indexes of the current page are re-derived.
\<close>

definition od_mutate :: "odict \<Rightarrow> int \<Rightarrow> ref list \<Rightarrow> odict" where
  "od_mutate d k arr = (if map_of d k = None then d else AList.update k arr d)"

fun remove_inner ::
  "(ref \<Rightarrow> SelectionData) \<Rightarrow> int \<Rightarrow> ref list \<Rightarrow> odict \<times> ref list \<times> string list \<times> bool
     \<Rightarrow> (odict \<times> ref list \<times> string list \<times> bool) \<times> bool" where
  "remove_inner h pg [] st = (st, False)"
| "remove_inner h pg (sel # rest) (d, page_items, to_remove, removed) =
     (if sel_id (h sel) \<in> set to_remove then
        (let page_items' = remove1 sel page_items;
             d' = (if page_items' = [] then AList.delete pg d else od_mutate d pg page_items');
             to_remove' = removeAll (sel_id (h sel)) to_remove
         in if to_remove' = [] then ((d', page_items', to_remove', removed), True)
            else remove_inner h pg rest (d', page_items', to_remove', True))
      else remove_inner h pg rest (d, page_items, to_remove, removed))"

fun remove_outer ::
  "odict \<Rightarrow> (ref \<Rightarrow> SelectionData) \<Rightarrow> odict \<Rightarrow> string list
     \<Rightarrow> (ref \<Rightarrow> SelectionData) \<times> odict" where
  "remove_outer [] h d to_remove = (h, d)"
| "remove_outer ((pg, page_items) # rest) h d to_remove =
     (case remove_inner h pg page_items (d, page_items, to_remove, False) of
        ((d', _, to_remove', removed), returned) \<Rightarrow>
          if returned then (h, d')
          else remove_outer rest (if removed then update_page_indexes h d' pg else h) d' to_remove')"

definition remove_selections :: "world \<Rightarrow> ref list \<Rightarrow> world" where
  "remove_selections w selections =
     (let to_remove_id_list = remdups (map (\<lambda>s. sel_id (heap w s)) selections);
          (h', d') = remove_outer (model w) (heap w) (model w) to_remove_id_list
      in w\<lparr>heap := h', model := d'\<rparr>)"

record RemoveAllCmd =
  rmall_values :: "ref list"

definition RemoveAllCmd_redo :: "RemoveAllCmd \<Rightarrow> world \<Rightarrow> RemoveAllCmd \<times> world" where
  "RemoveAllCmd_redo c w = (c, remove_selections w (rmall_values c))"

definition RemoveAllCmd_undo :: "RemoveAllCmd \<Rightarrow> world \<Rightarrow> world" where
  "RemoveAllCmd_undo c w =
     foldl (\<lambda>w' v. snd (insert_ordered w' v None None)) w (rmall_values c)"

subsection \<open>EditCmd\<close>

text \<open>\<^verbatim>\<open>copy()\<close> builds a new item around a deep copy of \<^verbatim>\<open>data\<close>.\<close>

definition copy_item :: "world \<Rightarrow> ref \<Rightarrow> ref \<times> world" where
  "copy_item w r = (nxt w, w\<lparr>heap := (heap w)(nxt w := heap w r), nxt := Suc (nxt w)\<rparr>)"

text \<open>
  \<^verbatim>\<open>edit_selection\<close> runs inside \<^verbatim>\<open>try: ... except:\<close>, which catches everything and
  prints: it never raises.  The only statements that can raise are \<^verbatim>\<open>dictionary[old_key]\<close>
  (\<^verbatim>\<open>KeyError\<close>) and \<^verbatim>\<open>pop(old_idx)\<close> (\<^verbatim>\<open>IndexError\<close>), before anything has changed, and
  the insertion when \<^verbatim>\<open>selection\<close> is \<^verbatim>\<open>None\<close> (\<^verbatim>\<open>undo\<close> with no \<^verbatim>\<open>redo\<close> before), after
  the removal.
\<close>

definition edit_selection :: "world \<Rightarrow> int \<Rightarrow> int \<Rightarrow> ref option \<Rightarrow> bool \<Rightarrow> world" where
  "edit_selection w old_key old_idx selection replace =
     (let popped =
            (if replace then
               (case map_of (model w) old_key of
                  None \<Rightarrow> None
                | Some arr \<Rightarrow>
                    (case list_pop arr old_idx of
                       None \<Rightarrow> None
                     | Some arr' \<Rightarrow>
                         Some (if arr' = [] then AList.delete old_key (model w)
                               else AList.update old_key arr' (model w))))
             else Some (model w))
      in case popped of
           None \<Rightarrow> w
         | Some d1 \<Rightarrow>
             (case selection of
                None \<Rightarrow> w\<lparr>model := d1\<rparr>
              | Some sel \<Rightarrow>
                  (let w2 = snd (insert_ordered (w\<lparr>model := d1\<rparr>) sel None None);
                       target_key = page (heap w2 sel);
                       h3 = update_page_indexes (heap w2) (model w2) target_key;
                       h4 = (if target_key \<noteq> old_key
                             then update_page_indexes h3 (model w2) old_key else h3)
                   in w2\<lparr>heap := h4\<rparr>)))"

record EditCmd =
  ed_value :: ref
  ed_editing_key :: int
  ed_editing_idx :: int
  ed_old_value :: "ref option"

definition EditCmd_init :: "int \<Rightarrow> int \<Rightarrow> ref \<Rightarrow> EditCmd" where
  "EditCmd_init editing_key editing_index new_value =
     \<lparr>ed_value = new_value, ed_editing_key = editing_key, ed_editing_idx = editing_index,
      ed_old_value = None\<rparr>"

text \<open>\<^verbatim>\<open>redo\<close>: the lookup \<^verbatim>\<open>self.model[key][idx]\<close> stands outside any \<^verbatim>\<open>try\<close>.\<close>

definition EditCmd_redo :: "EditCmd \<Rightarrow> world \<Rightarrow> EditCmd outcome \<times> world" where
  "EditCmd_redo c w =
     (case map_of (model w) (ed_editing_key c) of
        None \<Rightarrow> (Raised KeyError, w)
      | Some arr \<Rightarrow>
          (case py_index arr (ed_editing_idx c) of
             None \<Rightarrow> (Raised IndexError, w)
           | Some j \<Rightarrow>
               (case copy_item w (arr ! j) of
                  (old_copy, w1) \<Rightarrow>
                    (Returned (c\<lparr>ed_old_value := Some old_copy\<rparr>),
                     edit_selection w1 (ed_editing_key c) (ed_editing_idx c)
                       (Some (ed_value c)) True))))"

definition EditCmd_undo :: "EditCmd \<Rightarrow> world \<Rightarrow> world" where
  "EditCmd_undo c w =
     edit_selection w (page (heap w (ed_value c))) (idx (heap w (ed_value c)))
       (ed_old_value c) True"

subsection \<open>MoveAllCmd\<close>

record EditingData =
  editing_page :: int
  editing_idx :: int
  new_selection :: ref

text \<open>\<^verbatim>\<open>_compute_inverse\<close>, run by the constructor before anything is applied.\<close>

fun compute_inverse :: "EditingData list \<Rightarrow> EditingData list \<Rightarrow> world \<Rightarrow> EditingData list \<times> world" where
  "compute_inverse [] inverse_edits w = (inverse_edits, w)"
| "compute_inverse (e # rest) inverse_edits w =
     (case map_of (model w) (editing_page e) of
        None \<Rightarrow> compute_inverse rest inverse_edits w
      | Some arr \<Rightarrow>
          if 0 \<le> editing_idx e \<and> editing_idx e < int (length arr) then
            (case copy_item w (arr ! nat (editing_idx e)) of
               (old_copy, w1) \<Rightarrow>
                 (let h2 = (heap w1)(old_copy :=
                              (heap w1 old_copy)\<lparr>page := editing_page e, idx := editing_idx e\<rparr>);
                      inv_e = \<lparr>editing_page = page (h2 (new_selection e)),
                             editing_idx = idx (h2 (new_selection e)),
                             new_selection = old_copy\<rparr>
                  in compute_inverse rest (inverse_edits @ [inv_e]) (w1\<lparr>heap := h2\<rparr>)))
          else compute_inverse rest inverse_edits w)"

text \<open>
  \<^verbatim>\<open>_apply_edit\<close>.  \<^verbatim>\<open>edit_pages\<close> is a Python set; the model keeps its elements in the
  order of their first insertion.  Phase one removes, in the source page of every edit, the
  first item that has the id of the replacement; phase two inserts every replacement at
  the page and index of its own \<^verbatim>\<open>data\<close>, an index outside \<open>0..len\<close> becoming \<open>len\<close>;
  phase three re-derives the indexes of the pages touched.  No key is ever deleted.
\<close>

definition set_add :: "int list \<Rightarrow> int \<Rightarrow> int list" where
  "set_add ps p = (if p \<in> set ps then ps else ps @ [p])"

fun pop_first_by_id :: "(ref \<Rightarrow> SelectionData) \<Rightarrow> string \<Rightarrow> ref list \<Rightarrow> ref list option" where
  "pop_first_by_id h sid [] = None"
| "pop_first_by_id h sid (item # rest) =
     (if sel_id (h item) = sid then Some rest
      else map_option (\<lambda>rest'. item # rest') (pop_first_by_id h sid rest))"

fun apply_removals ::
  "(ref \<Rightarrow> SelectionData) \<Rightarrow> EditingData list \<Rightarrow> odict \<Rightarrow> int list \<Rightarrow> odict \<times> int list" where
  "apply_removals h [] d edit_pages = (d, edit_pages)"
| "apply_removals h (e # rest) d edit_pages =
     (case pop_first_by_id h (sel_id (h (new_selection e))) (od_get d (editing_page e)) of
        None \<Rightarrow> apply_removals h rest d edit_pages
      | Some arr' \<Rightarrow>
          apply_removals h rest (od_mutate d (editing_page e) arr')
            (set_add edit_pages (editing_page e)))"

fun apply_insertions ::
  "(ref \<Rightarrow> SelectionData) \<Rightarrow> EditingData list \<Rightarrow> odict \<Rightarrow> int list \<Rightarrow> odict \<times> int list" where
  "apply_insertions h [] d edit_pages = (d, edit_pages)"
| "apply_insertions h (e # rest) d edit_pages =
     (let tgt_page = page (h (new_selection e));
          tgt_idx = idx (h (new_selection e));
          d1 = (if map_of d tgt_page = None then AList.update tgt_page [] d else d);
          arr = od_get d1 tgt_page;
          tgt_idx' = (if tgt_idx < 0 \<or> tgt_idx > int (length arr) then int (length arr)
                      else tgt_idx)
      in apply_insertions h rest
           (AList.update tgt_page (list_insert arr tgt_idx' (new_selection e)) d1)
           (set_add edit_pages tgt_page))"

definition apply_edit :: "world \<Rightarrow> EditingData list \<Rightarrow> world" where
  "apply_edit w editing =
     (let (d1, pages1) = apply_removals (heap w) editing (model w) [];
          (d2, pages2) = apply_insertions (heap w) editing d1 pages1;
          h3 = foldl (\<lambda>h pg. update_page_indexes h d2 pg) (heap w) pages2
      in w\<lparr>heap := h3, model := d2\<rparr>)"

record MoveAllCmd =
  mv_editing :: "EditingData list"
  mv_inverse :: "EditingData list"

definition MoveAllCmd_init :: "EditingData list \<Rightarrow> world \<Rightarrow> MoveAllCmd \<times> world" where
  "MoveAllCmd_init editing w =
     (case compute_inverse editing [] w of
        (inverse_edits, w') \<Rightarrow> (\<lparr>mv_editing = editing, mv_inverse = inverse_edits\<rparr>, w'))"

definition MoveAllCmd_redo :: "MoveAllCmd \<Rightarrow> world \<Rightarrow> world" where
  "MoveAllCmd_redo c w = apply_edit w (mv_editing c)"

definition MoveAllCmd_undo :: "MoveAllCmd \<Rightarrow> world \<Rightarrow> world" where
  "MoveAllCmd_undo c w = apply_edit w (mv_inverse c)"

subsection \<open>The manager's entry points\<close>

text \<open>
  Every public method builds its command and pushes it on the \<^verbatim>\<open>QUndoStack\<close>, and
  \<^verbatim>\<open>push\<close> runs \<^verbatim>\<open>redo\<close> at once.  \<open>command\<close> names the six operations with their
  arguments, \<open>applied\<close> is the command object after \<^verbatim>\<open>redo\<close>, which \<^verbatim>\<open>undo\<close> needs.
\<close>

datatype command =
    Insert ref
  | InsertBatch "ref list" bool
  | Remove ref
  | RemoveBatch "ref list"
  | Edit int int ref
  | MoveBatch "EditingData list"

datatype applied =
    InsertDone InsertCmd
  | InsertAllDone InsertAllCmd
  | RemoveDone RemoveCmd
  | RemoveAllDone RemoveAllCmd
  | EditDone EditCmd
  | MoveAllDone MoveAllCmd

fun push :: "command \<Rightarrow> world \<Rightarrow> applied outcome \<times> world" where
  "push (Insert selection) w =
     (case InsertCmd_redo (InsertCmd_init selection) w of
        (c, w') \<Rightarrow> (Returned (InsertDone c), w'))"
| "push (InsertBatch selections app) w =
     (case InsertAllCmd_redo (InsertAllCmd_init selections app) w of
        (c, w') \<Rightarrow> (Returned (InsertAllDone c), w'))"
| "push (Remove selection) w =
     (case RemoveCmd_redo (RemoveCmd_init selection) w of
        (c, w') \<Rightarrow> (Returned (RemoveDone c), w'))"
| "push (RemoveBatch selections) w =
     (case RemoveAllCmd_redo \<lparr>rmall_values = selections\<rparr> w of
        (c, w') \<Rightarrow> (Returned (RemoveAllDone c), w'))"
| "push (Edit editing_key editing_index new_sel) w =
     (case EditCmd_redo (EditCmd_init editing_key editing_index new_sel) w of
        (Raised e, w') \<Rightarrow> (Raised e, w')
      | (Returned c, w') \<Rightarrow> (Returned (EditDone c), w'))"
| "push (MoveBatch editing) w =
     (case MoveAllCmd_init editing w of
        (c, w1) \<Rightarrow> (Returned (MoveAllDone c), MoveAllCmd_redo c w1))"

fun undo :: "applied \<Rightarrow> world \<Rightarrow> unit outcome \<times> world" where
  "undo (InsertDone c) w = InsertCmd_undo c w"
| "undo (InsertAllDone c) w = InsertAllCmd_undo c w"
| "undo (RemoveDone c) w = (Returned (), RemoveCmd_undo c w)"
| "undo (RemoveAllDone c) w = (Returned (), RemoveAllCmd_undo c w)"
| "undo (EditDone c) w = (Returned (), EditCmd_undo c w)"
| "undo (MoveAllDone c) w = (Returned (), MoveAllCmd_undo c w)"

subsection \<open>The path from the root (\<^verbatim>\<open>get_selection_path_str\<close>)\<close>

text \<open>\<^verbatim>\<open>build_id_lookup\<close>: a later item with the same id overwrites an earlier one.\<close>

definition build_id_lookup :: "(ref \<Rightarrow> SelectionData) \<Rightarrow> odict \<Rightarrow> (string \<rightharpoonup> ref)" where
  "build_id_lookup h d =
     foldl (\<lambda>m sel. m(sel_id (h sel) \<mapsto> sel)) Map.empty (concat (map snd d))"

text \<open>
  The loop \<^verbatim>\<open>while current is not None\<close> has no bound and no set of visited ids.  It is a
  partial function: \<open>None\<close> stands for a loop that never ends, \<open>Some (Raised KeyError)\<close>
  for a failing \<^verbatim>\<open>id_lookup[current]\<close>.
\<close>

partial_function (option) climb_parents ::
  "(string \<rightharpoonup> ref) \<Rightarrow> (ref \<Rightarrow> SelectionData) \<Rightarrow> string list \<Rightarrow> string option
     \<Rightarrow> string list outcome option" where
  "climb_parents id_lookup h path_ids current =
     (if current = None then Some (Returned path_ids)
      else if id_lookup (the current) = None then Some (Raised KeyError)
      else climb_parents id_lookup h (path_ids @ [the current])
             (case parent (h (the (id_lookup (the current)))) of
                None \<Rightarrow> None
              | Some p \<Rightarrow> if id_lookup p \<noteq> None then Some p else None))"

text \<open>\<^verbatim>\<open>" > ".join(...)\<close>, and the arrow \<^verbatim>\<open>U+2192\<close> as its three UTF-8 bytes.\<close>

fun join :: "string \<Rightarrow> string list \<Rightarrow> string" where
  "join sep [] = []"
| "join sep [x] = x"
| "join sep (x # y # ys) = x @ sep @ join sep (y # ys)"

definition text_of :: "(string \<rightharpoonup> ref) \<Rightarrow> (ref \<Rightarrow> SelectionData) \<Rightarrow> string \<Rightarrow> string" where
  "text_of id_lookup h n = (case id_lookup n of None \<Rightarrow> [] | Some node \<Rightarrow> sel_text (h node))"

definition get_selection_path_str :: "world \<Rightarrow> string \<Rightarrow> bool \<Rightarrow> string outcome option" where
  "get_selection_path_str w selection_id include_last =
     (let id_lookup = build_id_lookup (heap w) (model w)
      in if id_lookup selection_id = None then Some (Returned [])
         else
           (case climb_parents id_lookup (heap w) [] (Some selection_id) of
              None \<Rightarrow> None
            | Some (Raised e) \<Rightarrow> Some (Raised e)
            | Some (Returned path_ids) \<Rightarrow>
                (case rev path_ids of
                   [] \<Rightarrow> Some (Raised IndexError)
                 | _ \<Rightarrow>
                     (let reversed = rev path_ids;
                          last_id = last reversed;
                          path_text = join '' > '' (map (text_of id_lookup (heap w)) (butlast reversed))
                      in Some (Returned
                           (if include_last
                            then path_text @ '' '' @ [CHR 0xE2, CHR 0x86, CHR 0x92] @ '' ''
                                   @ text_of id_lookup (heap w) last_id
                            else path_text))))))"

section \<open>Invariants of the store\<close>

text \<open>
  \<open>all_items\<close> lists the items of the store page after page, \<open>store_ids\<close> their ids,
  \<open>store_view\<close> the store by value (what a reader of the dictionary sees).
\<close>

definition all_items :: "world \<Rightarrow> ref list" where
  "all_items w = concat (map snd (model w))"

definition store_ids :: "world \<Rightarrow> string list" where
  "store_ids w = map (\<lambda>r. sel_id (heap w r)) (all_items w)"

definition store_view :: "world \<Rightarrow> (int \<times> SelectionData list) list" where
  "store_view w = map (\<lambda>(pg, items). (pg, map (heap w) items)) (model w)"

text \<open>I2: on every page the items carry the key as \<open>page\<close> and their position as \<open>idx\<close>.\<close>

definition page_contiguous :: "(ref \<Rightarrow> SelectionData) \<Rightarrow> int \<Rightarrow> ref list \<Rightarrow> bool" where
  "page_contiguous h pg items =
     (map (\<lambda>r. (page (h r), idx (h r))) items = map (\<lambda>j. (pg, int j)) [0 ..< length items])"

definition contiguity :: "world \<Rightarrow> bool" where
  "contiguity w = list_all (\<lambda>(pg, items). page_contiguous (heap w) pg items) (model w)"

text \<open>I1: no id twice.  I4: no key with an empty list.\<close>

definition uniqueness :: "world \<Rightarrow> bool" where
  "uniqueness w = distinct (store_ids w)"

definition key_presence :: "world \<Rightarrow> bool" where
  "key_presence w = list_all (\<lambda>(pg, items). items \<noteq> []) (model w)"

text \<open>
  What holds of every state of the program: the keys of a dictionary are distinct, and every
  item of the store has been allocated.
\<close>

definition wf_world :: "world \<Rightarrow> bool" where
  "wf_world w = (distinct (map fst (model w)) \<and> list_all (\<lambda>r. r < nxt w) (all_items w))"

text \<open>
  I3 speaks of the graph of the parent pointers that resolve: \<open>(p, c)\<close> is an edge when
  the record found under id \<open>c\<close> names \<open>p\<close> as its parent and \<open>p\<close> is an id of the store.
\<close>

definition parent_rel :: "world \<Rightarrow> (string \<times> string) set" where
  "parent_rel w =
     {(p, c). \<exists>node. build_id_lookup (heap w) (model w) c = Some node
                \<and> parent (heap w node) = Some p
                \<and> build_id_lookup (heap w) (model w) p \<noteq> None}"



section \<open>Example data\<close>

text \<open>The dataclass constructor: \<^verbatim>\<open>idx\<close> is not an argument and starts at \<open>-1\<close>.\<close>

definition SelectionData_init ::
  "string \<Rightarrow> int \<Rightarrow> string option \<Rightarrow> string list \<Rightarrow> SelectionData" where
  "SelectionData_init i pg par chs =
     \<lparr>sel_id = i, doc = ''doc.pdf'', page = pg, idx = - 1, coords = [(0, 0), (1, 0), (1, 1)],
      sel_text = i, category = TEXT, sel_image = [], parent = par, children = chs,
      description = []\<rparr>"

definition heap_of :: "SelectionData list \<Rightarrow> (ref \<Rightarrow> SelectionData)" where
  "heap_of objs r = (if r < length objs then objs ! r else SelectionData_init [] 0 None [])"

definition world_of :: "SelectionData list \<Rightarrow> odict \<Rightarrow> world" where
  "world_of objs d = \<lparr>heap = heap_of objs, nxt = length objs, model = d\<rparr>"

definition ex_A :: SelectionData where
  "ex_A = (SelectionData_init ''A'' 1 None [])\<lparr>idx := 0\<rparr>"

definition ex_B :: SelectionData where
  "ex_B = (SelectionData_init ''B'' 1 None [])\<lparr>idx := 1\<rparr>"

definition ex_X :: SelectionData where
  "ex_X = (SelectionData_init ''X'' 3 None [])\<lparr>idx := 7\<rparr>"

definition ex_Y :: SelectionData where
  "ex_Y = (SelectionData_init ''Y'' 3 None [])\<lparr>idx := 4\<rparr>"

text \<open>Two records on page 1, and two records bound for the absent page 3.\<close>

definition ex_world :: world where
  "ex_world = world_of [ex_A, ex_B, ex_X, ex_Y] [(1, [0, 1])]"

text \<open>Keys 1 and 5 in ascending order; the third record is bound for page 3.\<close>

definition ex_sorted_world :: world where
  "ex_sorted_world =
     world_of [ex_A, (SelectionData_init ''B'' 5 None [])\<lparr>idx := 0\<rparr>, ex_X] [(1, [0]), (5, [1])]"

text \<open>An empty store and the two records of page 1, not yet inserted.\<close>

definition ex_empty_world :: world where
  "ex_empty_world = world_of [ex_A, ex_B] []"

text \<open>Page 1 holds one record; the second object is its replacement, bound for page 2.\<close>

definition ex_move_world :: world where
  "ex_move_world = world_of [ex_A, ex_A\<lparr>page := 2\<rparr>] [(1, [0])]"

text \<open>A root \<open>A\<close> with its child \<open>B\<close>; the same two records with a cycle of parents; and
  \<open>A\<close> listing a child id that no record has.\<close>

definition ex_tree_world :: world where
  "ex_tree_world =
     world_of [(SelectionData_init ''A'' 1 None [''B''])\<lparr>idx := 0\<rparr>,
               (SelectionData_init ''B'' 1 (Some ''A'') [])\<lparr>idx := 1\<rparr>] [(1, [0, 1])]"

definition ex_cycle_world :: world where
  "ex_cycle_world =
     world_of [(SelectionData_init ''A'' 1 (Some ''B'') [''B''])\<lparr>idx := 0\<rparr>,
               (SelectionData_init ''B'' 1 (Some ''A'') [''A''])\<lparr>idx := 1\<rparr>] [(1, [0, 1])]"


text \<open>
  Four objects for a store whose keys end up in the order 5, 3: \<open>A\<close> and \<open>B\<close> of page 5,
  the replacement of \<open>B\<close> bound for page 3, and a new record \<open>R\<close> of page 4.
\<close>

definition ex_unsorted_objs :: "SelectionData list" where
  "ex_unsorted_objs =
     [(SelectionData_init ''A'' 5 None [])\<lparr>idx := 0\<rparr>,
      (SelectionData_init ''B'' 5 None [])\<lparr>idx := 1\<rparr>,
      (SelectionData_init ''B'' 3 None [])\<lparr>idx := 0\<rparr>,
      SelectionData_init ''R'' 4 None []]"

definition ex_unsorted_world :: world where
  "ex_unsorted_world =
     snd (push (MoveBatch [\<lparr>editing_page = 5, editing_idx = 1, new_selection = 2\<rparr>])
       (snd (push (Insert 1) (snd (push (Insert 0) (world_of ex_unsorted_objs []))))))"

text \<open>A root \<open>A\<close> on page 1 with its children \<open>B\<close> (page 1) and \<open>C\<close> (page 2).\<close>

definition ex_family_world :: world where
  "ex_family_world =
     world_of [(SelectionData_init ''A'' 1 None [''B'', ''C''])\<lparr>idx := 0\<rparr>,
               (SelectionData_init ''B'' 1 (Some ''A'') [])\<lparr>idx := 1\<rparr>,
               (SelectionData_init ''C'' 2 (Some ''A'') [])\<lparr>idx := 0\<rparr>]
       [(1, [0, 1]), (2, [2])]"

text \<open>\<open>X\<close> and \<open>Z\<close> on page 1, \<open>Y\<close> on page 2, and the replacements of \<open>X\<close> and \<open>Y\<close>
  bound for the head of the other page.\<close>

definition ex_swap_world :: world where
  "ex_swap_world =
     world_of [(SelectionData_init ''X'' 1 None [])\<lparr>idx := 0\<rparr>,
               (SelectionData_init ''Y'' 2 None [])\<lparr>idx := 0\<rparr>,
               (SelectionData_init ''X'' 2 None [])\<lparr>idx := 0\<rparr>,
               (SelectionData_init ''Y'' 1 None [])\<lparr>idx := 0\<rparr>,
               (SelectionData_init ''Z'' 1 None [])\<lparr>idx := 1\<rparr>]
       [(1, [0, 4]), (2, [1])]"

text \<open>The store reached by pushing a list of commands, one after the other.\<close>

definition run_commands :: "command list \<Rightarrow> world \<Rightarrow> world" where
  "run_commands cs w = foldl (\<lambda>w' c. snd (push c w')) w cs"

text \<open>
  \<open>X\<close>, \<open>W\<close>, \<open>Z\<close> inserted on page 1 and \<open>Y\<close> on page 2, then \<^verbatim>\<open>RemoveBatch([W])\<close>: page 1
  is \<open>[X, Z]\<close> and \<open>Z\<close> keeps \<open>idx = 2\<close> (the early return of C1).  The last two objects are
  the replacements of \<open>X\<close> and \<open>Y\<close> for the exchange.
\<close>

definition ex_stale_swap_objs :: "SelectionData list" where
  "ex_stale_swap_objs =
     [(SelectionData_init ''X'' 1 None [])\<lparr>idx := 0\<rparr>,
      (SelectionData_init ''W'' 1 None [])\<lparr>idx := 1\<rparr>,
      (SelectionData_init ''Z'' 1 None [])\<lparr>idx := 2\<rparr>,
      (SelectionData_init ''Y'' 2 None [])\<lparr>idx := 0\<rparr>,
      (SelectionData_init ''X'' 2 None [])\<lparr>idx := 0\<rparr>,
      (SelectionData_init ''Y'' 1 None [])\<lparr>idx := 0\<rparr>]"

definition ex_stale_swap_world :: world where
  "ex_stale_swap_world =
     run_commands [Insert 0, Insert 1, Insert 2, Insert 3, RemoveBatch [1]]
       (world_of ex_stale_swap_objs [])"

text \<open>
  \<open>Z\<close>, \<open>A\<close>, \<open>D\<close> inserted on page 1 and the children \<open>B\<close>, \<open>C\<close> of \<open>A\<close> on page 2, then
  \<^verbatim>\<open>RemoveBatch([Z])\<close>: page 1 is \<open>[A, D]\<close> and \<open>A\<close> keeps \<open>idx = 1\<close>.
\<close>

definition ex_stale_family_objs :: "SelectionData list" where
  "ex_stale_family_objs =
     [(SelectionData_init ''Z'' 1 None [])\<lparr>idx := 0\<rparr>,
      (SelectionData_init ''A'' 1 None [''B'', ''C''])\<lparr>idx := 1\<rparr>,
      (SelectionData_init ''D'' 1 None [])\<lparr>idx := 2\<rparr>,
      (SelectionData_init ''B'' 2 (Some ''A'') [])\<lparr>idx := 0\<rparr>,
      (SelectionData_init ''C'' 2 (Some ''A'') [])\<lparr>idx := 1\<rparr>]"

definition ex_stale_family_world :: world where
  "ex_stale_family_world =
     run_commands [Insert 0, Insert 1, Insert 2, Insert 3, Insert 4, RemoveBatch [0]]
       (world_of ex_stale_family_objs [])"

text \<open>A second record with the id of \<open>A\<close>, on page 1, inserted before \<open>A\<close>, \<open>B\<close>, \<open>C\<close> of page 2.\<close>

definition ex_dup_family_objs :: "SelectionData list" where
  "ex_dup_family_objs =
     [(SelectionData_init ''A'' 1 None [])\<lparr>idx := 0\<rparr>,
      (SelectionData_init ''A'' 2 None [''B'', ''C''])\<lparr>idx := 0\<rparr>,
      (SelectionData_init ''B'' 2 (Some ''A'') [])\<lparr>idx := 1\<rparr>,
      (SelectionData_init ''C'' 2 (Some ''A'') [])\<lparr>idx := 2\<rparr>]"

definition ex_dup_family_world :: world where
  "ex_dup_family_world =
     run_commands [Insert 0, Insert 1, Insert 2, Insert 3] (world_of ex_dup_family_objs [])"

section \<open>Auxiliary facts about the dictionary and the re-indexing\<close>

lemma update_absent: "k \<notin> fst ` set d \<Longrightarrow> AList.update k v d = d @ [(k, v)]"
  by (induction d) auto

lemma map_of_move_to_end: "map_of (move_to_end d k) = map_of d"
  by (auto simp: move_to_end_def AList.delete_conv' fun_eq_iff map_add_def split: option.splits)

lemma map_of_foldl_move_to_end: "map_of (foldl move_to_end d ks) = map_of d"
  by (induction ks arbitrary: d) (simp_all add: map_of_move_to_end)

lemma move_to_end_mid:
  assumes "distinct (map fst (L @ (k, v) # R))"
  shows "move_to_end (L @ (k, v) # R) k = L @ R @ [(k, v)]"
proof -
  from assms have kL: "k \<notin> fst ` set L" and kR: "k \<notin> fst ` set R" by auto
  have "map_of (L @ (k, v) # R) k = Some v"
  proof -
    from kL have "map_of L k = None" by (simp add: map_of_eq_None_iff)
    then show ?thesis by (simp add: map_add_def)
  qed
  moreover have "AList.delete k (L @ (k, v) # R) = L @ R"
  proof -
    have "AList.delete k (L @ (k, v) # R) = AList.delete k L @ AList.delete k R"
      by (simp add: AList.delete_eq)
    then show ?thesis using kL kR by simp
  qed
  ultimately show ?thesis by (simp add: move_to_end_def)
qed

text \<open>Moving a block of keys to the end, one after the other, keeps the block's order.\<close>

lemma foldl_move_to_end_block:
  "distinct (map fst (L @ G @ R)) \<Longrightarrow>
   foldl move_to_end (L @ G @ R) (map fst G) = L @ R @ G"
proof (induction G arbitrary: R)
  case Nil
  then show ?case by simp
next
  case (Cons g G)
  obtain k v where g: "g = (k, v)" by (cases g)
  have "move_to_end (L @ (k, v) # (G @ R)) k = L @ (G @ R) @ [(k, v)]"
    using Cons.prems by (intro move_to_end_mid) (simp add: g)
  moreover have "foldl move_to_end (L @ G @ (R @ [(k, v)])) (map fst G) = L @ (R @ [(k, v)]) @ G"
    using Cons.prems by (intro Cons.IH) (auto simp: g)
  ultimately show ?case by (simp add: g)
qed

lemma sorted_split:
  fixes d :: odict
  shows "sorted_wrt (<) (map fst d) \<Longrightarrow> key \<notin> fst ` set d \<Longrightarrow>
   d = filter (\<lambda>p. fst p < key) d @ filter (\<lambda>p. key < fst p) d"
proof (induction d)
  case Nil
  then show ?case by simp
next
  case (Cons p d)
  show ?case
  proof (cases "fst p < key")
    case True
    from Cons.prems have "sorted_wrt (<) (map fst d)" "key \<notin> fst ` set d" by auto
    then have "d = filter (\<lambda>p. fst p < key) d @ filter (\<lambda>p. key < fst p) d"
      by (rule Cons.IH)
    then have "p # d = p # filter (\<lambda>p. fst p < key) d @ filter (\<lambda>p. key < fst p) d"
      by simp
    moreover from True have "filter (\<lambda>p. fst p < key) (p # d) = p # filter (\<lambda>p. fst p < key) d"
      "filter (\<lambda>p. key < fst p) (p # d) = filter (\<lambda>p. key < fst p) d"
      by simp_all
    ultimately show ?thesis by (simp only: append_Cons)
  next
    case False
    with Cons.prems have gt: "key < fst p" by auto
    with Cons.prems have "\<forall>q \<in> set d. key < fst q" by auto
    then have "filter (\<lambda>p. fst p < key) d = []" "filter (\<lambda>p. key < fst p) d = d"
      by (auto simp: filter_empty_conv filter_id_conv)
    with gt False show ?thesis by simp
  qed
qed

text \<open>The new-key branch of \<^verbatim>\<open>insert_ordered\<close> on a dictionary with ascending keys.\<close>

lemma insert_ordered_new_key:
  assumes srt: "sorted_wrt (<) (map fst (model w))"
    and key: "key = (case key0 of None \<Rightarrow> page (heap w v) | Some k \<Rightarrow> k)"
    and new: "key \<notin> fst ` set (model w)"
  shows "insert_ordered w v key0 idx0 =
           ((key, 0), w\<lparr>model := filter (\<lambda>p. fst p < key) (model w) @ [(key, [v])]
                                   @ filter (\<lambda>p. key < fst p) (model w)\<rparr>)"
proof -
  let ?L = "filter (\<lambda>p. fst p < key) (model w)"
  let ?G = "filter (\<lambda>p. key < fst p) (model w)"
  let ?R = "[(key, [v])]"
  have split: "model w = ?L @ ?G" using srt new by (rule sorted_split)
  have none: "map_of (model w) key = None" using new by (simp add: map_of_eq_None_iff)
  have d1: "AList.update key [v] (model w) = ?L @ ?G @ ?R"
    using update_absent [OF new, of "[v]"] split by simp
  have "filter (\<lambda>k. key < k) (map fst (?L @ ?G @ ?R)) = map fst ?G"
    by (simp add: filter_map o_def filter_empty_conv)
  moreover have "distinct (map fst (?L @ ?G @ ?R))"
  proof -
    from srt have "distinct (map fst (model w))"
      by (simp add: strict_sorted_iff)
    with split have "distinct (map fst (?L @ ?G))" by simp
    moreover have "key \<notin> fst ` set (?L @ ?G)" using new split by simp
    ultimately show ?thesis by auto
  qed
  then have "foldl move_to_end (?L @ ?G @ ?R) (map fst ?G) = ?L @ ?R @ ?G"
    by (rule foldl_move_to_end_block)
  ultimately show ?thesis
    using none d1 key by (simp add: insert_ordered_def Let_def)
qed

lemma update_indexes_eq:
  "update_indexes h sel p i = h(sel := (h sel)\<lparr>page := p, idx := i\<rparr>)"
  by (auto simp: update_indexes_def Let_def fun_eq_iff)

lemma update_loop_notin: "x \<notin> set rs \<Longrightarrow> update_loop h p c rs x = h x"
  by (induction rs arbitrary: h c) (auto simp: update_indexes_eq)

lemma update_loop_pos_only:
  "(update_loop h p c rs x)\<lparr>page := a, idx := b\<rparr> = (h x)\<lparr>page := a, idx := b\<rparr>"
  by (induction rs arbitrary: h c) (auto simp: update_indexes_eq)

lemma update_loop_nth:
  "distinct rs \<Longrightarrow> j < length rs \<Longrightarrow>
   update_loop h p c rs (rs ! j) = (h (rs ! j))\<lparr>page := p, idx := c + int j\<rparr>"
proof (induction rs arbitrary: h c j)
  case Nil
  then show ?case by simp
next
  case (Cons r rs)
  show ?case
  proof (cases j)
    case 0
    with Cons.prems show ?thesis by (simp add: update_loop_notin update_indexes_eq)
  next
    case (Suc k)
    with Cons.prems have k: "k < length rs" and ne: "rs ! k \<noteq> r" and d: "distinct rs" by auto
    have "update_loop (update_indexes h r p c) p (c + 1) rs (rs ! k)
            = (update_indexes h r p c (rs ! k))\<lparr>page := p, idx := c + 1 + int k\<rparr>"
      by (rule Cons.IH [OF d k])
    moreover have "update_indexes h r p c (rs ! k) = h (rs ! k)"
      using ne by (simp add: update_indexes_eq)
    ultimately show ?thesis using Suc by (simp add: add.assoc)
  qed
qed

lemma update_loop_consistent:
  "(\<And>j. j < length rs \<Longrightarrow> page (h (rs ! j)) = p \<and> idx (h (rs ! j)) = c + int j) \<Longrightarrow>
   update_loop h p c rs = h"
proof (induction rs arbitrary: c)
  case Nil
  then show ?case by simp
next
  case (Cons r rs)
  from Cons.prems [of 0] have "page (h r) = p" "idx (h r) = c" by auto
  then have "(h r)\<lparr>page := p, idx := c\<rparr> = h r" by simp
  then have "update_indexes h r p c = h" by (simp add: update_indexes_eq)
  moreover have "update_loop h p (c + 1) rs = h"
  proof (rule Cons.IH)
    fix j assume "j < length rs"
    with Cons.prems [of "Suc j"] show "page (h (rs ! j)) = p \<and> idx (h (rs ! j)) = c + 1 + int j"
      by simp
  qed
  ultimately show ?case by simp
qed

lemma page_contiguous_iff:
  "page_contiguous h pg items \<longleftrightarrow>
     (\<forall>j < length items. page (h (items ! j)) = pg \<and> idx (h (items ! j)) = int j)"
proof -
  have "(map (\<lambda>r. (page (h r), idx (h r))) items = map (\<lambda>j. (pg, int j)) [0 ..< length items])
        \<longleftrightarrow> (\<forall>j < length items. (page (h (items ! j)), idx (h (items ! j))) = (pg, int j))"
    by (subst list_eq_iff_nth_eq) simp
  then show ?thesis by (simp add: page_contiguous_def)
qed

lemma page_contiguous_distinct:
  assumes "page_contiguous h pg items"
  shows "distinct items"
proof -
  have "i = j" if "i < length items" "j < length items" "items ! i = items ! j" for i j
  proof -
    from assms have *: "\<And>k. k < length items \<Longrightarrow> idx (h (items ! k)) = int k"
      by (simp add: page_contiguous_iff)
    from that(3) have "idx (h (items ! i)) = idx (h (items ! j))" by (rule arg_cong)
    then have "int i = int j" unfolding * [OF that(1)] * [OF that(2)] .
    then show ?thesis by simp
  qed
  then show ?thesis unfolding distinct_conv_nth by blast
qed

lemma contiguity_page:
  "contiguity w \<Longrightarrow> (pg, items) \<in> set (model w) \<Longrightarrow> page_contiguous (heap w) pg items"
  by (auto simp: contiguity_def list_all_iff)

lemma contiguity_item_page:
  assumes "contiguity w" "x \<in> set (all_items w)"
  shows "\<exists>items. (page (heap w x), items) \<in> set (model w) \<and> x \<in> set items"
proof -
  from assms(2) obtain pg items where pi: "(pg, items) \<in> set (model w)" "x \<in> set items"
    by (auto simp: all_items_def)
  then obtain j where "j < length items" "items ! j = x" by (auto simp: in_set_conv_nth)
  with contiguity_page [OF assms(1) pi(1)] have "page (heap w x) = pg"
    by (auto simp: page_contiguous_iff)
  with pi show ?thesis by auto
qed

lemma store_view_cong:
  assumes "model w' = model w" "\<And>x. x \<in> set (all_items w) \<Longrightarrow> heap w' x = heap w x"
  shows "store_view w' = store_view w"
proof -
  have "map (\<lambda>(pg, items). (pg, map (heap w') items)) (model w)
          = map (\<lambda>(pg, items). (pg, map (heap w) items)) (model w)"
  proof (rule map_cong [OF refl])
    fix e assume e: "e \<in> set (model w)"
    obtain pg items where pi: "e = (pg, items)" by (cases e)
    have "map (heap w') items = map (heap w) items"
    proof (rule map_cong [OF refl])
      fix x assume "x \<in> set items"
      with e pi have "x \<in> set (all_items w)" by (force simp: all_items_def)
      then show "heap w' x = heap w x" by (rule assms(2))
    qed
    with pi show "(case e of (pg, items) \<Rightarrow> (pg, map (heap w') items))
                = (case e of (pg, items) \<Rightarrow> (pg, map (heap w) items))" by simp
  qed
  with assms(1) show ?thesis by (simp add: store_view_def)
qed

lemma list_pop_list_insert:
  "0 \<le> i \<Longrightarrow> i \<le> int (length xs) \<Longrightarrow> list_pop (list_insert xs i x) i = Some xs"
proof -
  assume "0 \<le> i" "i \<le> int (length xs)"
  then have n: "i = int (nat i)" "nat i \<le> length xs" by simp_all
  define n where "n = nat i"
  with n have n: "i = int n" "n \<le> length xs" by simp_all
  then have "list_insert xs i x = take n xs @ x # drop n xs"
    by (simp add: list_insert_def Let_def)
  moreover have "py_index (take n xs @ x # drop n xs) (int n) = Some n"
    using n by (simp add: py_index_def Let_def)
  moreover have "take n (take n xs @ x # drop n xs) @ drop (Suc n) (take n xs @ x # drop n xs) = xs"
    using n by simp
  ultimately show ?thesis using n by (simp add: list_pop_def)
qed

lemma list_pop_append_last:
  "list_pop (xs @ [x]) (int (length (xs @ [x])) - 1) = Some xs"
  by (simp add: list_pop_def py_index_def Let_def)

lemma set_list_insert: "set (list_insert xs i x) = insert x (set xs)"
proof -
  have "set (take n xs) \<union> set (drop n xs) = set xs" for n
    by (metis append_take_drop_id set_append)
  then show ?thesis by (auto simp: list_insert_def Let_def)
qed

lemma reindex_roundtrip:
  assumes cont: "contiguity w" and dk: "distinct (map fst (model w))"
    and mp: "map_of (model w) (page (heap w r)) = Some arr"
    and s: "set arr' = insert r (set arr)"
    and x: "x \<in> set (all_items w)"
  shows "update_loop (update_loop (heap w) (page (heap w r)) 0 arr') (page (heap w r)) 0 arr x
           = heap w x"
proof -
  let ?key = "page (heap w r)" and ?h = "heap w"
  let ?h1 = "update_loop ?h ?key 0 arr'"
  from mp have mem: "(?key, arr) \<in> set (model w)" by (rule map_of_SomeD)
  from contiguity_page [OF cont mem] have pc: "page_contiguous ?h ?key arr" .
  then have dist: "distinct arr" by (rule page_contiguous_distinct)
  show ?thesis
  proof (cases "x \<in> set arr")
    case True
    then obtain j where j: "j < length arr" "arr ! j = x" by (auto simp: in_set_conv_nth)
    from pc j have f: "page (?h x) = ?key" "idx (?h x) = int j"
      by (auto simp: page_contiguous_iff)
    have "update_loop ?h1 ?key 0 arr x = (?h1 x)\<lparr>page := ?key, idx := 0 + int j\<rparr>"
      using update_loop_nth [OF dist j(1), of ?h1 ?key 0] j(2) by simp
    also have "\<dots> = (?h x)\<lparr>page := ?key, idx := 0 + int j\<rparr>"
      by (rule update_loop_pos_only)
    also have "\<dots> = ?h x" using f by simp
    finally show ?thesis .
  next
    case False
    have "x \<noteq> r"
    proof
      assume "x = r"
      with contiguity_item_page [OF cont x] obtain items
        where "(?key, items) \<in> set (model w)" "x \<in> set items" by auto
      with dk mp have "items = arr" by (metis map_of_is_SomeI option.inject)
      with \<open>x \<in> set items\<close> False show False by simp
    qed
    with False s have "x \<notin> set arr'" by simp
    with False show ?thesis by (simp add: update_loop_notin)
  qed
qed

lemma key_presence_nonempty:
  "key_presence w \<Longrightarrow> map_of (model w) k = Some arr \<Longrightarrow> arr \<noteq> []"
  by (auto simp: key_presence_def list_all_iff dest: map_of_SomeD)

lemma undo_after_insert_existing:
  assumes cont: "contiguity w" and dk: "distinct (map fst (model w))"
    and mp: "map_of (model w) (page (heap w r)) = Some arr" and ne: "arr \<noteq> []"
    and s: "set arr' = insert r (set arr)" and pop: "list_pop arr' i = Some arr"
  shows "case undo_insert_ordered
                (w\<lparr>heap := update_page_indexes (heap w)
                              (AList.update (page (heap w r)) arr' (model w)) (page (heap w r)),
                   model := AList.update (page (heap w r)) arr' (model w)\<rparr>) (page (heap w r)) i
         of (res, w2) \<Rightarrow> res = Returned () \<and> model w2 = model w \<and> store_view w2 = store_view w"
proof -
  let ?key = "page (heap w r)"
  have d: "AList.update ?key arr (AList.update ?key arr' (model w)) = model w"
    using mp by (simp add: AList.update_triv)
  have g: "od_get (AList.update ?key arr' (model w)) ?key = arr'"
    by (simp add: od_get_def AList.update_conv')
  have g2: "od_get (model w) ?key = arr" using mp by (simp add: od_get_def)
  let ?w2 = "w\<lparr>heap := update_loop (update_loop (heap w) ?key 0 arr') ?key 0 arr\<rparr>"
  have "undo_insert_ordered
          (w\<lparr>heap := update_page_indexes (heap w) (AList.update ?key arr' (model w)) ?key,
             model := AList.update ?key arr' (model w)\<rparr>) ?key i = (Returned (), ?w2)"
    using pop ne d g g2
    by (simp add: undo_insert_ordered_def AList.update_conv' update_page_indexes_def Let_def)
  moreover have "store_view ?w2 = store_view w"
    by (rule store_view_cong) (simp_all add: reindex_roundtrip [OF cont dk mp s])
  ultimately show ?thesis by simp
qed

text \<open>Lookups by id and the removal loop when the ids of the store are unique.\<close>

lemma find_in_page_None:
  "sid \<notin> (\<lambda>r. sel_id (h r)) ` set items \<Longrightarrow> find_in_page h sid c items = None"
  by (induction items arbitrary: c) auto

lemma find_in_page_unique:
  "distinct (map (\<lambda>r. sel_id (h r)) items) \<Longrightarrow> x \<in> set items \<Longrightarrow>
   \<exists>j. find_in_page h (sel_id (h x)) c items = Some (j, x)"
proof (induction items arbitrary: c)
  case Nil
  then show ?case by simp
next
  case (Cons r items)
  show ?case
  proof (cases "x = r")
    case True
    then show ?thesis by simp
  next
    case False
    with Cons.prems have "x \<in> set items" "sel_id (h r) \<noteq> sel_id (h x)" by auto
    with Cons.IH [of "c + 1"] Cons.prems show ?thesis by simp
  qed
qed

lemma find_selection_by_id_unique:
  "distinct (map (\<lambda>r. sel_id (h r)) (concat (map snd d))) \<Longrightarrow> x \<in> set (concat (map snd d)) \<Longrightarrow>
   \<exists>pg j. find_selection_by_id h d (sel_id (h x)) = Some (pg, j, x)"
proof (induction d)
  case Nil
  then show ?case by simp
next
  case (Cons e d)
  obtain pg items where e: "e = (pg, items)" by (cases e)
  show ?case
  proof (cases "x \<in> set items")
    case True
    from Cons.prems(1) e have "distinct (map (\<lambda>r. sel_id (h r)) items)" by simp
    from find_in_page_unique [OF this True, of 0]
    obtain j where "find_in_page h (sel_id (h x)) 0 items = Some (j, x)" by blast
    then show ?thesis by (simp add: e)
  next
    case False
    with Cons.prems e have xin: "x \<in> set (concat (map snd d))" by simp
    with Cons.prems(1) e have "sel_id (h x) \<notin> (\<lambda>r. sel_id (h r)) ` set items" by auto
    then have "find_in_page h (sel_id (h x)) 0 items = None" by (rule find_in_page_None)
    moreover from Cons.prems(1) e have "distinct (map (\<lambda>r. sel_id (h r)) (concat (map snd d)))"
      by simp
    from Cons.IH [OF this xin] obtain pg' j
      where "find_selection_by_id h d (sel_id (h x)) = Some (pg', j, x)" by blast
    ultimately show ?thesis by (simp add: e)
  qed
qed

lemma find_unique:
  "distinct (map f xs) \<Longrightarrow> a \<in> set xs \<Longrightarrow> find (\<lambda>x. f x = f a) xs = Some a"
  by (induction xs) auto

lemma find_None_ids:
  "sid \<notin> (\<lambda>r. sel_id (h r)) ` set items \<Longrightarrow> find (\<lambda>sel. sel_id (h sel) = sid) items = None"
  by (auto simp: find_None_iff)

lemma remove_node_loop_nomatch:
  "sid \<notin> (\<lambda>r. sel_id (h r)) ` set (concat (map snd snap)) \<Longrightarrow>
   remove_node_loop h sid snap d = (d, None)"
proof (induction snap arbitrary: d)
  case Nil
  then show ?case by simp
next
  case (Cons e snap)
  obtain pg items where e: "e = (pg, items)" by (cases e)
  from Cons.prems e have "find (\<lambda>sel. sel_id (h sel) = sid) items = None"
    by (intro find_None_ids) auto
  moreover from Cons.prems e have "remove_node_loop h sid snap d = (d, None)"
    by (intro Cons.IH) auto
  ultimately show ?case by (simp add: e)
qed

lemma remove_node_loop_match:
  assumes "sid \<notin> (\<lambda>r. sel_id (h r)) ` set (concat (map snd pre))"
    and "sid \<notin> (\<lambda>r. sel_id (h r)) ` set (concat (map snd post))"
    and "find (\<lambda>sel. sel_id (h sel) = sid) arr = Some a"
  shows "remove_node_loop h sid (pre @ (p, arr) # post) d =
           (if remove1 a arr = [] then (AList.delete p d, None)
            else (AList.update p (remove1 a arr) d, Some p))"
  using assms(1)
proof (induction pre)
  case Nil
  then show ?case using assms(2,3) by (simp add: remove_node_loop_nomatch Let_def)
next
  case (Cons e pre)
  obtain pg items where e: "e = (pg, items)" by (cases e)
  from Cons.prems e have "find (\<lambda>sel. sel_id (h sel) = sid) items = None"
    by (intro find_None_ids) auto
  moreover from Cons.prems e have "sid \<notin> (\<lambda>r. sel_id (h r)) ` set (concat (map snd pre))" by auto
  ultimately show ?case using Cons.IH by (simp add: e)
qed

lemma remove1_nth_distinct:
  "distinct xs \<Longrightarrow> i < length xs \<Longrightarrow> remove1 (xs ! i) xs = take i xs @ drop (Suc i) xs"
proof (induction xs arbitrary: i)
  case Nil
  then show ?case by simp
next
  case (Cons x xs)
  then show ?case by (cases i) auto
qed

lemma list_insert_remove1:
  assumes "distinct xs" "i < length xs"
  shows "list_insert (remove1 (xs ! i) xs) (int i) (xs ! i) = xs"
proof -
  have "remove1 (xs ! i) xs = take i xs @ drop (Suc i) xs"
    using assms by (rule remove1_nth_distinct)
  moreover have "list_insert (take i xs @ drop (Suc i) xs) (int i) (xs ! i)
                   = take i xs @ xs ! i # drop (Suc i) xs"
    using assms(2) by (simp add: list_insert_def Let_def min_def)
  ultimately show ?thesis using assms(2) by (simp add: id_take_nth_drop [symmetric])
qed

lemma update_mid:
  "k \<notin> fst ` set pre \<Longrightarrow> AList.update k v (pre @ (k, v0) # post) = pre @ (k, v) # post"
  by (induction pre) auto

lemma delete_mid:
  "k \<notin> fst ` set pre \<Longrightarrow> k \<notin> fst ` set post \<Longrightarrow>
   AList.delete k (pre @ (k, v0) # post) = pre @ post"
proof -
  assume a: "k \<notin> fst ` set pre" "k \<notin> fst ` set post"
  have "AList.delete k (pre @ (k, v0) # post) = AList.delete k pre @ AList.delete k post"
    by (simp add: AList.delete_eq)
  with a show ?thesis by simp
qed

lemma map_of_mid:
  "k \<notin> fst ` set pre \<Longrightarrow> map_of (pre @ (k, v) # post) k = Some v"
proof -
  assume "k \<notin> fst ` set pre"
  then have "map_of pre k = None" by (simp add: map_of_eq_None_iff)
  then show ?thesis by (simp add: map_add_def)
qed

lemma update_loop_parent [simp]: "parent (update_loop h p c rs x) = parent (h x)"
  by (induction rs arbitrary: h c) (auto simp: update_indexes_eq)

lemma update_loop_sel_id [simp]: "sel_id (update_loop h p c rs x) = sel_id (h x)"
  by (induction rs arbitrary: h c) (auto simp: update_indexes_eq)

lemma update_loop_children [simp]: "children (update_loop h p c rs x) = children (h x)"
  by (induction rs arbitrary: h c) (auto simp: update_indexes_eq)

lemma distinct_map_middle:
  "distinct (map f (xs @ ys @ zs)) \<Longrightarrow> a \<in> set ys \<Longrightarrow> f a \<notin> f ` set xs \<and> f a \<notin> f ` set zs"
  by auto

text \<open>What \<^verbatim>\<open>remove_and_relink_children\<close> does when the ids of the store are unique.\<close>

lemma remove_and_relink_children_unique:
  assumes uq: "uniqueness w"
    and split: "model w = pre @ (p, arr) # post"
    and pk: "p \<notin> fst ` set pre" "p \<notin> fst ` set post"
    and a: "a \<in> set arr"
    and ch: "children (heap w a) = [sel_id (heap w b), sel_id (heap w c)]"
    and bc: "b \<in> set (all_items w)" "c \<in> set (all_items w)"
  defines "h2 \<equiv> (heap w)(b := (heap w b)\<lparr>parent := parent (heap w a)\<rparr>,
                          c := (((heap w)(b := (heap w b)\<lparr>parent := parent (heap w a)\<rparr>)) c)
                                  \<lparr>parent := parent (heap w a)\<rparr>)"
  shows "remove_and_relink_children w a =
           ([b, c],
            w\<lparr>heap := (if remove1 a arr = [] then h2 else update_loop h2 p 0 (remove1 a arr)),
              model := (if remove1 a arr = [] then pre @ post
                        else pre @ (p, remove1 a arr) # post)\<rparr>)"
proof -
  let ?h = "heap w" and ?d = "model w"
  let ?par = "parent (heap w a)"
  let ?h1 = "?h(b := (?h b)\<lparr>parent := ?par\<rparr>)"
  have items: "all_items w = concat (map snd pre) @ arr @ concat (map snd post)"
    by (simp add: all_items_def split)
  from uq have dist: "distinct (map (\<lambda>r. sel_id (?h r)) (concat (map snd ?d)))"
    by (simp add: uniqueness_def store_ids_def all_items_def)
  have id1: "(\<lambda>r. sel_id (?h1 r)) = (\<lambda>r. sel_id (?h r))" by (auto simp: fun_eq_iff)
  have id2: "(\<lambda>r. sel_id (h2 r)) = (\<lambda>r. sel_id (?h r))" by (auto simp: fun_eq_iff h2_def)
  \<comment> \<open>the first loop\<close>
  from bc have bc': "b \<in> set (concat (map snd ?d))" "c \<in> set (concat (map snd ?d))"
    unfolding all_items_def .
  from find_selection_by_id_unique [OF dist bc'(1)]
  obtain pg1 j1 where f1: "find_selection_by_id ?h ?d (sel_id (?h b)) = Some (pg1, j1, b)"
    by blast
  from dist have dist1: "distinct (map (\<lambda>r. sel_id (?h1 r)) (concat (map snd ?d)))"
    by (simp only: id1)
  from find_selection_by_id_unique [OF dist1 bc'(2)]
  obtain pg2 j2 where "find_selection_by_id ?h1 ?d (sel_id (?h1 c)) = Some (pg2, j2, c)"
    by blast
  moreover have "sel_id (?h1 c) = sel_id (?h c)" by simp
  ultimately have f2: "find_selection_by_id ?h1 ?d (sel_id (?h c)) = Some (pg2, j2, c)" by simp
  have relink: "relink_loop ?h ?d ?par (children (?h a)) [] = (h2, [b, c])"
    by (simp add: ch f1 f2 h2_def)
  \<comment> \<open>the second loop\<close>
  let ?sid = "sel_id (h2 a)"
  have sid: "?sid = sel_id (?h a)" by (simp add: h2_def)
  from dist split have d3: "distinct (map (\<lambda>r. sel_id (?h r)) (concat (map snd pre) @ arr @ concat (map snd post)))"
    by simp
  then have darr: "distinct (map (\<lambda>r. sel_id (?h r)) arr)" by simp
  from distinct_map_middle [OF d3 a]
  have n1: "sel_id (?h a) \<notin> (\<lambda>r. sel_id (?h r)) ` set (concat (map snd pre))"
    and n2: "sel_id (?h a) \<notin> (\<lambda>r. sel_id (?h r)) ` set (concat (map snd post))"
    by blast+
  have fnd: "find (\<lambda>sel. sel_id (?h sel) = sel_id (?h a)) arr = Some a"
    using darr a by (rule find_unique)
  have loop2: "remove_node_loop h2 ?sid ?d ?d =
           (if remove1 a arr = [] then (AList.delete p ?d, None)
            else (AList.update p (remove1 a arr) ?d, Some p))"
    unfolding split sid
  proof (rule remove_node_loop_match)
    show "sel_id (?h a) \<notin> (\<lambda>r. sel_id (h2 r)) ` set (concat (map snd pre))"
      unfolding id2 by (rule n1)
    show "sel_id (?h a) \<notin> (\<lambda>r. sel_id (h2 r)) ` set (concat (map snd post))"
      unfolding id2 by (rule n2)
    have "(\<lambda>sel. sel_id (h2 sel) = sel_id (?h a)) = (\<lambda>sel. sel_id (?h sel) = sel_id (?h a))"
      using id2 by (simp add: fun_eq_iff)
    then show "find (\<lambda>sel. sel_id (h2 sel) = sel_id (?h a)) arr = Some a"
      using fnd by simp
  qed
  show ?thesis
  proof (cases "remove1 a arr = []")
    case True
    have "AList.delete p ?d = pre @ post" unfolding split using pk by (rule delete_mid)
    with True relink loop2 show ?thesis
      by (simp add: remove_and_relink_children_def Let_def)
  next
    case False
    have u: "AList.update p (remove1 a arr) ?d = pre @ (p, remove1 a arr) # post"
      unfolding split using pk(1) by (rule update_mid)
    have "od_get (pre @ (p, remove1 a arr) # post) p = remove1 a arr"
      unfolding od_get_def map_of_mid [OF pk(1)] by simp
    with False relink loop2 u show ?thesis
      by (simp add: remove_and_relink_children_def Let_def update_page_indexes_def)
  qed
qed

text \<open>Facts for the exchange of the heads of two pages by \<^verbatim>\<open>MoveAllCmd\<close>.\<close>

lemma update_as_map:
  "distinct (map fst d) \<Longrightarrow> k \<in> fst ` set d \<Longrightarrow>
   AList.update k v d = map (\<lambda>e. if fst e = k then (k, v) else e) d"
proof (induction d)
  case Nil
  then show ?case by simp
next
  case (Cons e d)
  show ?case
  proof (cases "fst e = k")
    case True
    with Cons.prems have "k \<notin> fst ` set d" by auto
    then have "map (\<lambda>e. if fst e = k then (k, v) else e) d = d"
      by (intro map_idI) auto
    with True show ?thesis by (cases e) simp
  next
    case False
    with Cons show ?thesis by (cases e) auto
  qed
qed

lemma update_commute:
  "k \<noteq> k' \<Longrightarrow> k \<in> fst ` set d \<Longrightarrow>
   AList.update k v (AList.update k' v' d) = AList.update k' v' (AList.update k v d)"
  by (induction d) auto

lemma keys_update_present:
  "k \<in> fst ` set d \<Longrightarrow> map fst (AList.update k v d) = map fst d"
  by (simp add: AList.update_keys)

lemma pop_first_by_id_head:
  "sel_id (h item) = sid \<Longrightarrow> pop_first_by_id h sid (item # rest) = Some rest"
  by simp

lemma list_insert_front: "list_insert xs 0 x = x # xs"
  by (simp add: list_insert_def Let_def)

text \<open>\<^verbatim>\<open>_apply_edit\<close> on two edits that exchange the heads of two pages.\<close>

lemma apply_edit_swap:
  assumes pq: "p \<noteq> q"
    and P: "map_of (model w) p = Some (x # xs)" and Q: "map_of (model w) q = Some (y # ys)"
    and nx: "sel_id (heap w nx) = sel_id (heap w x)" "page (heap w nx) = q" "idx (heap w nx) = 0"
    and ny: "sel_id (heap w ny) = sel_id (heap w y)" "page (heap w ny) = p" "idx (heap w ny) = 0"
    and cx: "\<And>j. j < length xs \<Longrightarrow> page (heap w (xs ! j)) = p \<and> idx (heap w (xs ! j)) = 1 + int j"
    and cy: "\<And>j. j < length ys \<Longrightarrow> page (heap w (ys ! j)) = q \<and> idx (heap w (ys ! j)) = 1 + int j"
  shows "apply_edit w [\<lparr>editing_page = p, editing_idx = i1, new_selection = nx\<rparr>,
                       \<lparr>editing_page = q, editing_idx = i2, new_selection = ny\<rparr>]
         = w\<lparr>model := AList.update p (ny # xs) (AList.update q (nx # ys) (model w))\<rparr>"
proof -
  let ?h = "heap w" and ?d = "model w"
  let ?d4 = "AList.update p (ny # xs) (AList.update q (nx # ys) ?d)"
  from P have "(p, x # xs) \<in> set ?d" by (rule map_of_SomeD)
  then have pin: "p \<in> fst ` set ?d" by force
  have rem: "apply_removals ?h [\<lparr>editing_page = p, editing_idx = i1, new_selection = nx\<rparr>,
                       \<lparr>editing_page = q, editing_idx = i2, new_selection = ny\<rparr>] ?d []
             = (AList.update q ys (AList.update p xs ?d), [p, q])"
    using pq P Q nx(1) ny(1)
    by (simp add: od_get_def od_mutate_def AList.update_conv' set_add_def)
  have ins: "apply_insertions ?h [\<lparr>editing_page = p, editing_idx = i1, new_selection = nx\<rparr>,
                       \<lparr>editing_page = q, editing_idx = i2, new_selection = ny\<rparr>]
               (AList.update q ys (AList.update p xs ?d)) [p, q]
             = (AList.update p (ny # xs) (AList.update q (nx # ys)
                  (AList.update q ys (AList.update p xs ?d))), [p, q])"
    using pq nx(2,3) ny(2,3)
    by (simp add: od_get_def AList.update_conv' set_add_def list_insert_front Let_def)
  have norm: "AList.update p (ny # xs) (AList.update q (nx # ys)
                  (AList.update q ys (AList.update p xs ?d))) = ?d4"
  proof -
    have "AList.update q (nx # ys) (AList.update q ys (AList.update p xs ?d))
            = AList.update q (nx # ys) (AList.update p xs ?d)" by simp
    also have "\<dots> = AList.update p xs (AList.update q (nx # ys) ?d)"
      using pq pin by (simp add: update_commute [of p q])
    finally show ?thesis by simp
  qed
  note ins' = ins [unfolded norm]
  have gp: "od_get ?d4 p = ny # xs" by (simp add: od_get_def AList.update_conv')
  have gq: "od_get ?d4 q = nx # ys" using pq by (simp add: od_get_def AList.update_conv')
  have rp: "update_loop ?h p 0 (ny # xs) = ?h"
  proof (rule update_loop_consistent)
    fix j assume "j < length (ny # xs)"
    then show "page (?h ((ny # xs) ! j)) = p \<and> idx (?h ((ny # xs) ! j)) = 0 + int j"
      using ny cx by (cases j) auto
  qed
  have rq: "update_loop ?h q 0 (nx # ys) = ?h"
  proof (rule update_loop_consistent)
    fix j assume "j < length (nx # ys)"
    then show "page (?h ((nx # ys) ! j)) = q \<and> idx (?h ((nx # ys) ! j)) = 0 + int j"
      using nx cy by (cases j) auto
  qed
  show ?thesis
    by (simp add: apply_edit_def rem ins' update_page_indexes_def gp gq rp rq
        del: apply_insertions.simps apply_removals.simps update_loop.simps)
qed

lemma view_update_same:
  "distinct (map fst d) \<Longrightarrow> map_of d k = Some v \<Longrightarrow> map h v' = map h v \<Longrightarrow>
   map (\<lambda>(pg, items). (pg, map h items)) (AList.update k v' d)
     = map (\<lambda>(pg, items). (pg, map h items)) d"
proof (induction d)
  case Nil
  then show ?case by simp
next
  case (Cons e d)
  obtain pg items where e: "e = (pg, items)" by (cases e)
  show ?case
  proof (cases "pg = k")
    case True
    with Cons.prems e show ?thesis by simp
  next
    case False
    with Cons.prems e have "map_of d k = Some v" "distinct (map fst d)" by simp_all
    with Cons.IH Cons.prems(3) False e show ?thesis by simp
  qed
qed

lemma mset_ids_update:
  "distinct (map fst d) \<Longrightarrow> map_of d k = Some v \<Longrightarrow>
   mset (map f (concat (map snd (AList.update k v' d)))) + mset (map f v)
     = mset (map f (concat (map snd d))) + mset (map f v')"
proof (induction d)
  case Nil
  then show ?case by simp
next
  case (Cons e d)
  obtain pg items where e: "e = (pg, items)" by (cases e)
  show ?case
  proof (cases "pg = k")
    case True
    with Cons.prems e show ?thesis by simp
  next
    case False
    with Cons.prems e have "map_of d k = Some v" "distinct (map fst d)" by simp_all
    from Cons.IH [OF this(2,1)] False e show ?thesis by simp
  qed
qed

lemma wf_world_lt:
  "wf_world w \<Longrightarrow> map_of (model w) k = Some arr \<Longrightarrow> r \<in> set arr \<Longrightarrow> r < nxt w"
proof -
  assume "wf_world w" "map_of (model w) k = Some arr" "r \<in> set arr"
  then have "(k, arr) \<in> set (model w)" by (auto dest: map_of_SomeD)
  with \<open>r \<in> set arr\<close> have "r \<in> set (all_items w)" by (force simp: all_items_def)
  with \<open>wf_world w\<close> show ?thesis by (simp add: wf_world_def list_all_iff)
qed

text \<open>The constructor of \<^verbatim>\<open>MoveAllCmd\<close> for two edits that exchange the heads of two pages.\<close>

lemma MoveAllCmd_init_swap:
  assumes P: "map_of (model w) p = Some (x # xs)" and Q: "map_of (model w) q = Some (y # ys)"
    and lt: "x' < nxt w" "y' < nxt w" "y < nxt w"
    and tx: "page (heap w x') = q" "idx (heap w x') = 0"
    and ty: "page (heap w y') = p" "idx (heap w y') = 0"
  shows "MoveAllCmd_init [\<lparr>editing_page = p, editing_idx = 0, new_selection = x'\<rparr>,
                          \<lparr>editing_page = q, editing_idx = 0, new_selection = y'\<rparr>] w
         = (\<lparr>mv_editing = [\<lparr>editing_page = p, editing_idx = 0, new_selection = x'\<rparr>,
                            \<lparr>editing_page = q, editing_idx = 0, new_selection = y'\<rparr>],
             mv_inverse = [\<lparr>editing_page = q, editing_idx = 0, new_selection = nxt w\<rparr>,
                            \<lparr>editing_page = p, editing_idx = 0, new_selection = Suc (nxt w)\<rparr>]\<rparr>,
            w\<lparr>heap := (heap w)(nxt w := (heap w x)\<lparr>page := p, idx := 0\<rparr>,
                                 Suc (nxt w) := (heap w y)\<lparr>page := q, idx := 0\<rparr>),
              nxt := Suc (Suc (nxt w))\<rparr>)"
  using assms by (simp add: MoveAllCmd_init_def copy_item_def Let_def)

lemma MoveBatch_swap:
  assumes wf: "wf_world w" and pq: "p \<noteq> q"
    and P: "map_of (model w) p = Some (x # xs)" and Q: "map_of (model w) q = Some (y # ys)"
    and cp: "page_contiguous (heap w) p (x # xs)" and cq: "page_contiguous (heap w) q (y # ys)"
    and X: "x' < nxt w" "sel_id (heap w x') = sel_id (heap w x)"
           "page (heap w x') = q" "idx (heap w x') = 0"
    and Y: "y' < nxt w" "sel_id (heap w y') = sel_id (heap w y)"
           "page (heap w y') = p" "idx (heap w y') = 0"
  shows "case MoveAllCmd_init [\<lparr>editing_page = p, editing_idx = 0, new_selection = x'\<rparr>,
                               \<lparr>editing_page = q, editing_idx = 0, new_selection = y'\<rparr>] w
         of (cmd, w0) \<Rightarrow>
           model (MoveAllCmd_redo cmd w0)
             = AList.update p (y' # xs) (AList.update q (x' # ys) (model w))
         \<and> heap (MoveAllCmd_redo cmd w0) x' = heap w x'
         \<and> heap (MoveAllCmd_redo cmd w0) y' = heap w y'
         \<and> map fst (model (MoveAllCmd_redo cmd w0)) = map fst (model w)
         \<and> mset (store_ids (MoveAllCmd_redo cmd w0)) = mset (store_ids w)
         \<and> store_view (MoveAllCmd_undo cmd (MoveAllCmd_redo cmd w0)) = store_view w"
proof -
  let ?h = "heap w" and ?d = "model w" and ?n = "nxt w"
  let ?e = "[\<lparr>editing_page = p, editing_idx = 0, new_selection = x'\<rparr>,
             \<lparr>editing_page = q, editing_idx = 0, new_selection = y'\<rparr>]"
  let ?i = "[\<lparr>editing_page = q, editing_idx = 0, new_selection = ?n\<rparr>,
             \<lparr>editing_page = p, editing_idx = 0, new_selection = Suc ?n\<rparr>]"
  define h0 where "h0 = ?h(?n := (?h x)\<lparr>page := p, idx := 0\<rparr>,
                           Suc ?n := (?h y)\<lparr>page := q, idx := 0\<rparr>)"
  define w0 where "w0 = w\<lparr>heap := h0, nxt := Suc (Suc ?n)\<rparr>"
  define D1 where "D1 = AList.update p (y' # xs) (AList.update q (x' # ys) ?d)"
  define D2 where "D2 = AList.update q (Suc ?n # ys) (AList.update p (?n # xs) ?d)"
  from wf have dk: "distinct (map fst ?d)" by (simp add: wf_world_def)
  have old: "h0 r = ?h r" if "r < ?n" for r using that by (simp add: h0_def)
  have ltx: "x < ?n" and lty: "y < ?n"
    using wf_world_lt [OF wf P, of x] wf_world_lt [OF wf Q, of y] by simp_all
  have ltxs: "r < ?n" if "r \<in> set xs" for r using wf_world_lt [OF wf P, of r] that by simp
  have ltys: "r < ?n" if "r \<in> set ys" for r using wf_world_lt [OF wf Q, of r] that by simp
  from cp have x0: "page (?h x) = p" "idx (?h x) = 0"
    and xt: "\<And>j. j < length xs \<Longrightarrow> page (?h (xs ! j)) = p \<and> idx (?h (xs ! j)) = 1 + int j"
    by (force simp: page_contiguous_iff)+
  from cq have y0: "page (?h y) = q" "idx (?h y) = 0"
    and yt: "\<And>j. j < length ys \<Longrightarrow> page (?h (ys ! j)) = q \<and> idx (?h (ys ! j)) = 1 + int j"
    by (force simp: page_contiguous_iff)+
  have init: "MoveAllCmd_init ?e w = (\<lparr>mv_editing = ?e, mv_inverse = ?i\<rparr>, w0)"
    unfolding w0_def h0_def
    by (rule MoveAllCmd_init_swap [OF P Q X(1) Y(1) lty X(3,4) Y(3,4)])
  \<comment> \<open>the forward edits\<close>
  have redo: "apply_edit w0 ?e = w0\<lparr>model := D1\<rparr>"
    unfolding D1_def
  proof -
    have "apply_edit w0 ?e
            = w0\<lparr>model := AList.update p (y' # xs) (AList.update q (x' # ys) (model w0))\<rparr>"
    proof (rule apply_edit_swap [OF pq])
      show "map_of (model w0) p = Some (x # xs)" "map_of (model w0) q = Some (y # ys)"
        using P Q by (simp_all add: w0_def)
      show "sel_id (heap w0 x') = sel_id (heap w0 x)" "page (heap w0 x') = q" "idx (heap w0 x') = 0"
        using X ltx by (simp_all add: w0_def old)
      show "sel_id (heap w0 y') = sel_id (heap w0 y)" "page (heap w0 y') = p" "idx (heap w0 y') = 0"
        using Y lty by (simp_all add: w0_def old)
      show "page (heap w0 (xs ! j)) = p \<and> idx (heap w0 (xs ! j)) = 1 + int j" if "j < length xs" for j
        using xt [OF that] ltxs [of "xs ! j"] that by (simp add: w0_def old)
      show "page (heap w0 (ys ! j)) = q \<and> idx (heap w0 (ys ! j)) = 1 + int j" if "j < length ys" for j
        using yt [OF that] ltys [of "ys ! j"] that by (simp add: w0_def old)
    qed
    then show "apply_edit w0 ?e = w0\<lparr>model := AList.update p (y' # xs) (AList.update q (x' # ys) ?d)\<rparr>"
      by (simp add: w0_def)
  qed
  let ?w1 = "w0\<lparr>model := D1\<rparr>"
  have D1p: "map_of D1 p = Some (y' # xs)" and D1q: "map_of D1 q = Some (x' # ys)"
    using pq by (simp_all add: D1_def AList.update_conv')
  from P have "(p, x # xs) \<in> set ?d" by (rule map_of_SomeD)
  then have pin: "p \<in> fst ` set ?d" by force
  \<comment> \<open>the inverse edits\<close>
  have undo: "apply_edit ?w1 ?i = ?w1\<lparr>model := D2\<rparr>"
  proof -
    have "apply_edit ?w1 ?i
            = ?w1\<lparr>model := AList.update q (Suc ?n # ys) (AList.update p (?n # xs) (model ?w1))\<rparr>"
    proof (rule apply_edit_swap [OF pq [symmetric]])
      show "map_of (model ?w1) q = Some (x' # ys)" "map_of (model ?w1) p = Some (y' # xs)"
        using D1p D1q by simp_all
      show "sel_id (heap ?w1 ?n) = sel_id (heap ?w1 x')" "page (heap ?w1 ?n) = p" "idx (heap ?w1 ?n) = 0"
        using X by (simp_all add: w0_def old) (simp_all add: h0_def)
      show "sel_id (heap ?w1 (Suc ?n)) = sel_id (heap ?w1 y')" "page (heap ?w1 (Suc ?n)) = q"
        "idx (heap ?w1 (Suc ?n)) = 0"
        using Y by (simp_all add: w0_def old) (simp_all add: h0_def)
      show "page (heap ?w1 (ys ! j)) = q \<and> idx (heap ?w1 (ys ! j)) = 1 + int j" if "j < length ys" for j
        using yt [OF that] ltys [of "ys ! j"] that by (simp add: w0_def old)
      show "page (heap ?w1 (xs ! j)) = p \<and> idx (heap ?w1 (xs ! j)) = 1 + int j" if "j < length xs" for j
        using xt [OF that] ltxs [of "xs ! j"] that by (simp add: w0_def old)
    qed
    moreover have "AList.update q (Suc ?n # ys) (AList.update p (?n # xs) D1) = D2"
    proof -
      have "AList.update p (?n # xs) D1 = AList.update p (?n # xs) (AList.update q (x' # ys) ?d)"
        by (simp add: D1_def)
      also have "\<dots> = AList.update q (x' # ys) (AList.update p (?n # xs) ?d)"
        using pq pin by (rule update_commute)
      finally show ?thesis by (simp add: D2_def)
    qed
    ultimately show ?thesis by simp
  qed
  \<comment> \<open>the store after the undo\<close>
  have view0: "map (\<lambda>(pg, items). (pg, map h0 items)) ?d = store_view w"
  proof -
    have "store_view (w\<lparr>heap := h0\<rparr>) = store_view w"
    proof (rule store_view_cong)
      fix r assume "r \<in> set (all_items w)"
      with wf have "r < ?n" by (simp add: wf_world_def list_all_iff)
      then show "heap (w\<lparr>heap := h0\<rparr>) r = heap w r" by (simp add: old)
    qed simp
    then show ?thesis by (simp add: store_view_def)
  qed
  have view2: "map (\<lambda>(pg, items). (pg, map h0 items)) D2 = store_view w"
  proof -
    let ?E = "AList.update p (?n # xs) ?d"
    have dE: "distinct (map fst ?E)" using dk by (rule AList.distinct_update)
    have qE: "map_of ?E q = Some (y # ys)" using Q pq by (simp add: AList.update_conv')
    have "map h0 (Suc ?n # ys) = map h0 (y # ys)"
      using y0 lty by (simp add: old) (simp add: h0_def)
    from view_update_same [OF dE qE this]
    have "map (\<lambda>(pg, items). (pg, map h0 items)) D2 = map (\<lambda>(pg, items). (pg, map h0 items)) ?E"
      by (simp add: D2_def)
    also have "\<dots> = map (\<lambda>(pg, items). (pg, map h0 items)) ?d"
    proof (rule view_update_same [OF dk P])
      show "map h0 (?n # xs) = map h0 (x # xs)"
        using x0 ltx by (simp add: old) (simp add: h0_def)
    qed
    finally show ?thesis by (simp add: view0)
  qed
  \<comment> \<open>the ids after the forward edits\<close>
  let ?f = "\<lambda>r. sel_id (h0 r)"
  have ids: "mset (map ?f (concat (map snd D1))) = mset (map ?f (concat (map snd ?d)))"
  proof -
    let ?E = "AList.update q (x' # ys) ?d"
    have dE: "distinct (map fst ?E)" using dk by (rule AList.distinct_update)
    have pE: "map_of ?E p = Some (x # xs)" using P pq by (simp add: AList.update_conv')
    have fx: "?f x' = ?f x" "?f y' = ?f y" using X Y ltx lty by (simp_all add: old)
    have "mset (map ?f (concat (map snd D1))) + mset (map ?f (x # xs)) + mset (map ?f (y # ys))
            = mset (map ?f (concat (map snd ?E))) + mset (map ?f (y' # xs)) + mset (map ?f (y # ys))"
      using mset_ids_update [OF dE pE, of ?f "y' # xs"] by (simp add: D1_def)
    also have "\<dots> = mset (map ?f (concat (map snd ?d))) + mset (map ?f (x' # ys)) + mset (map ?f (y' # xs))"
      using mset_ids_update [OF dk Q, of ?f "x' # ys"] by (simp add: add.commute add.left_commute)
    also have "\<dots> = mset (map ?f (concat (map snd ?d))) + mset (map ?f (x # xs)) + mset (map ?f (y # ys))"
      using fx by simp
    finally show ?thesis by simp
  qed
  have ids0: "map ?f (concat (map snd ?d)) = store_ids w"
  proof -
    have "map ?f (all_items w) = map (\<lambda>r. sel_id (?h r)) (all_items w)"
    proof (rule map_cong [OF refl])
      fix r assume "r \<in> set (all_items w)"
      with wf have "r < ?n" by (simp add: wf_world_def list_all_iff)
      then show "sel_id (h0 r) = sel_id (?h r)" by (simp add: old)
    qed
    then show ?thesis by (simp add: store_ids_def all_items_def)
  qed
  have c1: "model (MoveAllCmd_redo \<lparr>mv_editing = ?e, mv_inverse = ?i\<rparr> w0) = D1"
    and c2: "heap (MoveAllCmd_redo \<lparr>mv_editing = ?e, mv_inverse = ?i\<rparr> w0) = h0"
    by (simp_all add: MoveAllCmd_redo_def redo) (simp add: w0_def)
  have c3: "MoveAllCmd_undo \<lparr>mv_editing = ?e, mv_inverse = ?i\<rparr>
              (MoveAllCmd_redo \<lparr>mv_editing = ?e, mv_inverse = ?i\<rparr> w0) = ?w1\<lparr>model := D2\<rparr>"
    by (simp add: MoveAllCmd_redo_def MoveAllCmd_undo_def redo undo)
  have k: "map fst D1 = map fst ?d"
  proof -
    from Q have "(q, y # ys) \<in> set ?d" by (rule map_of_SomeD)
    then have "q \<in> fst ` set ?d" by force
    then have "map fst (AList.update q (x' # ys) ?d) = map fst ?d" by (rule keys_update_present)
    moreover from pin have "p \<in> fst ` set (AList.update q (x' # ys) ?d)"
      by (simp add: AList.dom_update)
    then have "map fst D1 = map fst (AList.update q (x' # ys) ?d)"
      unfolding D1_def by (rule keys_update_present)
    ultimately show ?thesis by simp
  qed
  have s1: "mset (store_ids (MoveAllCmd_redo \<lparr>mv_editing = ?e, mv_inverse = ?i\<rparr> w0))
              = mset (store_ids w)"
    using ids ids0 by (simp add: store_ids_def all_items_def c1 c2)
  have s2: "store_view (?w1\<lparr>model := D2\<rparr>) = store_view w"
    using view2 by (simp add: store_view_def w0_def)
  show ?thesis
    unfolding init prod.case c3
    using c1 c2 k s1 s2 X(1) Y(1) by (simp add: D1_def old)
qed

section \<open>The claims\<close>

text \<open>
  C10.  When the keys of the store are in strictly ascending order and the key of the record
  to insert is not among them, \<^verbatim>\<open>insert_ordered\<close> puts the new key, with the record as its
  only item, between the smaller and the greater keys (the greater keys having been moved
  to the end one by one), so the keys are in strictly ascending order afterwards.
\<close>

theorem insert_ordered_new_key_sorted:
  assumes "sorted_wrt (<) (map fst (model w))"
    and "page (heap w v) \<notin> fst ` set (model w)"
  shows "model (snd (insert_ordered w v None idx0)) =
           filter (\<lambda>p. fst p < page (heap w v)) (model w) @ [(page (heap w v), [v])]
             @ filter (\<lambda>p. page (heap w v) < fst p) (model w)
         \<and> sorted_wrt (<) (map fst (model (snd (insert_ordered w v None idx0))))"
proof -
  let ?key = "page (heap w v)"
  have "sorted_wrt (<) (map fst (filter (\<lambda>p. fst p < ?key) (model w) @ [(?key, [v])]
           @ filter (\<lambda>p. ?key < fst p) (model w)))"
  proof -
    have "sorted_wrt (<) (map fst (filter (\<lambda>p. fst p < ?key) (model w)))"
      "sorted_wrt (<) (map fst (filter (\<lambda>p. ?key < fst p) (model w)))"
      using assms(1) by (simp_all add: sorted_wrt_map sorted_wrt_filter)
    then show ?thesis by (auto simp: sorted_wrt_append)
  qed
  moreover have "?key = (case None of None \<Rightarrow> page (heap w v) | Some k \<Rightarrow> k)" by simp
  ultimately show ?thesis
    using insert_ordered_new_key [OF assms(1) _ assms(2), where ?key0.0 = None and ?idx0.0 = idx0] by simp
qed

theorem insert_ordered_new_key_sorted_witness:
  "sorted_wrt (<) (map fst (model ex_sorted_world))
   \<and> page (heap ex_sorted_world 2) \<notin> fst ` set (model ex_sorted_world)
   \<and> model (snd (insert_ordered ex_sorted_world 2 None None)) = [(1, [0]), (3, [2]), (5, [1])]
   \<and> sorted_wrt (<) (map fst (model (snd (insert_ordered ex_sorted_world 2 None None))))"
proof -
  have h1: "sorted_wrt (<) (map fst (model ex_sorted_world))" by code_simp
  have h2: "page (heap ex_sorted_world 2) \<notin> fst ` set (model ex_sorted_world)" by code_simp
  have m: "model ex_sorted_world = [(1, [0]), (5, [1])]" by code_simp
  have p: "page (heap ex_sorted_world 2) = 3" by code_simp
  from insert_ordered_new_key_sorted [OF h1 h2, where ?idx0.0 = None]
  have "model (snd (insert_ordered ex_sorted_world 2 None None)) = [(1, [0]), (3, [2]), (5, [1])]"
    and "sorted_wrt (<) (map fst (model (snd (insert_ordered ex_sorted_world 2 None None))))"
    by (simp_all add: m p)
  with h1 h2 show ?thesis by blast
qed

text \<open>
  C9.  Page 3 has no key; \<open>X\<close> and \<open>Y\<close> are two records of page 3, whatever their \<open>idx\<close>.
  \<^verbatim>\<open>InsertBatch([X, Y], append=True)\<close> leaves page 3 as \<open>[X, Y]\<close> with \<open>idx\<close> 0 and 1.  Its
  \<^verbatim>\<open>undo\<close> first undoes the insertion at index 1, which leaves \<open>[X]\<close>, then the one at index
  0, and page 3 has no key again.
\<close>

theorem InsertBatch_append_new_page:
  assumes "map_of (model w) 3 = None"
    and "page (heap w X) = 3" and "page (heap w Y) = 3" and "X \<noteq> Y"
  shows "case InsertAllCmd_redo (InsertAllCmd_init [X, Y] True) w of (c, w') \<Rightarrow>
           map_of (model w') 3 = Some [X, Y]
         \<and> idx (heap w' X) = 0 \<and> idx (heap w' Y) = 1
         \<and> (case undo_insert_ordered w' 3 1 of (r1, w1) \<Rightarrow>
               r1 = Returned () \<and> map_of (model w1) 3 = Some [X]
             \<and> InsertAllCmd_undo c w' = undo_insert_ordered w1 3 0)
         \<and> (case InsertAllCmd_undo c w' of (r, w'') \<Rightarrow>
               r = Returned () \<and> map_of (model w'') 3 = None)"
  using assms
  by (simp add: InsertAllCmd_redo_def InsertAllCmd_init_def InsertAllCmd_undo_def
     insert_ordered_def Let_def map_of_foldl_move_to_end AList.update_conv'
     undo_insert_ordered_def list_pop_def py_index_def update_page_indexes_def od_get_def
     update_indexes_eq AList.delete_conv' split: prod.splits)

theorem InsertBatch_append_new_page_witness:
  "map_of (model ex_world) 3 = None
   \<and> page (heap ex_world 2) = 3 \<and> page (heap ex_world 3) = 3 \<and> (2::nat) \<noteq> 3
   \<and> (case InsertAllCmd_redo (InsertAllCmd_init [2, 3] True) ex_world of (c, w') \<Rightarrow>
           map_of (model w') 3 = Some [2, 3]
         \<and> idx (heap w' 2) = 0 \<and> idx (heap w' 3) = 1
         \<and> (case undo_insert_ordered w' 3 1 of (r1, w1) \<Rightarrow>
               r1 = Returned () \<and> map_of (model w1) 3 = Some [2]
             \<and> InsertAllCmd_undo c w' = undo_insert_ordered w1 3 0)
         \<and> (case InsertAllCmd_undo c w' of (r, w'') \<Rightarrow>
               r = Returned () \<and> map_of (model w'') 3 = None))"
proof -
  have h1: "map_of (model ex_world) 3 = None" by code_simp
  have h2: "page (heap ex_world 2) = 3" by code_simp
  have h3: "page (heap ex_world 3) = 3" by code_simp
  have h4: "(2::nat) \<noteq> 3" by simp
  from InsertBatch_append_new_page [OF h1 h2 h3 h4] h1 h2 h3 h4
  show ?thesis by blast
qed

text \<open>
  C1.  From the empty store: \<^verbatim>\<open>Insert(A)\<close> and \<^verbatim>\<open>Insert(B)\<close> put \<open>A\<close> and \<open>B\<close> on page 1
  with \<open>idx\<close> 0 and 1, and the store is contiguous.  \<^verbatim>\<open>RemoveBatch([A])\<close> then leaves
  \<open>B\<close> alone on page 1, at position 0, with \<open>idx\<close> still 1: \<^verbatim>\<open>remove_selections\<close> returns
  as soon as its set of ids is empty, before the page is re-indexed.
\<close>

theorem RemoveBatch_leaves_stale_idx:
  "(let (r1, w1) = push (Insert 0) ex_empty_world;
        (r2, w2) = push (Insert 1) w1;
        (r3, w3) = push (RemoveBatch [0]) w2
    in contiguity w2 \<and> model w3 = [(1, [1])] \<and> idx (heap w3 1) = 1 \<and> \<not> contiguity w3)"
  by code_simp

text \<open>
  C6.  Page 1 holds the single record \<open>A\<close>; a \<^verbatim>\<open>MoveBatch\<close> with one edit moves it to page
  2.  Afterwards key 1 is still in the store, with an empty list: \<^verbatim>\<open>_apply_edit\<close> never
  deletes a key.
\<close>

theorem MoveBatch_keeps_empty_page_key:
  "(let (r, w') = push (MoveBatch [\<lparr>editing_page = 1, editing_idx = 0, new_selection = 1\<rparr>])
                    ex_move_world
    in key_presence ex_move_world \<and> model w' = [(1, []), (2, [1])] \<and> \<not> key_presence w')"
  by code_simp




text \<open>Facts for C8: the lookup has finitely many ids, and the loop along a well-founded
  parent relation ends.\<close>

lemma dom_foldl_upd:
  "dom (foldl (\<lambda>m s. m(f s \<mapsto> s)) m0 xs) = dom m0 \<union> f ` set xs"
  by (induction xs arbitrary: m0) auto

lemma finite_dom_build_id_lookup: "finite (dom (build_id_lookup h d))"
  by (simp add: build_id_lookup_def dom_foldl_upd)

lemma finite_parent_rel: "finite (parent_rel w)"
proof -
  have "parent_rel w \<subseteq> dom (build_id_lookup (heap w) (model w)) \<times> dom (build_id_lookup (heap w) (model w))"
    by (auto simp: parent_rel_def)
  then show ?thesis
    using finite_dom_build_id_lookup finite_subset by blast
qed

lemma climb_parents_returns:
  assumes "wf {(p, c). \<exists>node. lk c = Some node \<and> parent (h node) = Some p \<and> lk p \<noteq> None}"
  shows "lk c \<noteq> None \<Longrightarrow>
         \<exists>path. climb_parents lk h acc (Some c) = Some (Returned (acc @ c # path))"
  using assms
proof (induction c arbitrary: acc rule: wf_induct_rule)
  case (less c)
  from less.prems obtain node where node: "lk c = Some node" by auto
  show ?case
  proof (cases "parent (h node)")
    case None
    then show ?thesis using node
      by (subst climb_parents.simps) (simp add: climb_parents.simps)
  next
    case (Some p)
    show ?thesis
    proof (cases "lk p = None")
      case True
      then show ?thesis using node Some
        by (subst climb_parents.simps) (simp add: climb_parents.simps)
    next
      case False
      then have "(p, c) \<in> {(p, c). \<exists>node. lk c = Some node \<and> parent (h node) = Some p \<and> lk p \<noteq> None}"
        using node Some by auto
      from less.IH [OF this False, of "acc @ [c]"]
      obtain path where "climb_parents lk h (acc @ [c]) (Some p) = Some (Returned ((acc @ [c]) @ p # path))"
        by blast
      then show ?thesis using node Some False
        by (subst climb_parents.simps) simp
    qed
  qed
qed

lemma climb_parents_cycle:
  assumes A: "lk a = Some na" "parent (h na) = Some b"
    and B: "lk b = Some nb" "parent (h nb) = Some a"
  shows "climb_parents lk h acc (Some a) = None"
proof -
  have "\<not> (lk' = lk \<and> h' = h \<and> (cur = Some a \<or> cur = Some b))"
    if run: "climb_parents lk' h' acc' cur = Some y" for lk' h' acc' cur y
  proof (rule climb_parents.raw_induct
      [where P = "\<lambda>lk' h' acc' cur y. \<not> (lk' = lk \<and> h' = h \<and> (cur = Some a \<or> cur = Some b))",
        OF _ run], goal_cases)
    case (1 climb lk' h' acc' cur y)
    note IH = "1"(1) and body = "1"(2)
    show ?case
    proof
      assume c: "lk' = lk \<and> h' = h \<and> (cur = Some a \<or> cur = Some b)"
      then consider "cur = Some a" | "cur = Some b" by blast
      then show False
      proof cases
        case 1
        with body c A B have "climb lk h (acc' @ [a]) (Some b) = Some y" by simp
        from IH [OF this] show False by simp
      next
        case 2
        with body c A B have "climb lk h (acc' @ [b]) (Some a) = Some y" by simp
        from IH [OF this] show False by simp
      qed
    qed
  qed
  then have "climb_parents lk h acc (Some a) \<noteq> Some y" for y by blast
  then show ?thesis by (cases "climb_parents lk h acc (Some a)") auto
qed

lemma ex_cycle_lookup:
  "build_id_lookup (heap ex_cycle_world) (model ex_cycle_world) = [''A'' \<mapsto> 0, ''B'' \<mapsto> 1]"
  by (simp add: build_id_lookup_def ex_cycle_world_def world_of_def heap_of_def SelectionData_init_def)

lemma ex_tree_lookup:
  "build_id_lookup (heap ex_tree_world) (model ex_tree_world) = [''A'' \<mapsto> 0, ''B'' \<mapsto> 1]"
  by (simp add: build_id_lookup_def ex_tree_world_def world_of_def heap_of_def SelectionData_init_def)

lemma ex_tree_acyclic: "acyclic (parent_rel ex_tree_world)"
proof -
  have "parent_rel ex_tree_world \<subseteq> {(''A'', ''B'')}"
    by (auto simp: parent_rel_def ex_tree_lookup split: if_splits)
       (simp_all add: ex_tree_world_def world_of_def heap_of_def SelectionData_init_def)
  moreover have "acyclic {(''A'', ''B'')}"
  proof -
    have "acyclic ({} :: (string \<times> string) set)" by (simp add: acyclic_def)
    then show ?thesis by (simp add: acyclic_insert)
  qed
  ultimately show ?thesis by (rule acyclic_subset [rotated])
qed


text \<open>
  C8.  The claim fails on a cycle: with \<open>A.parent = B\<close> and \<open>B.parent = A\<close> the walk from
  \<open>A\<close> never returns.  There is no bound and no \<^verbatim>\<open>CycleDetected\<close> in the loop.
\<close>

theorem path_walk_loops_on_cycle:
  "get_selection_path_str ex_cycle_world ''A'' True = None"
proof -
  have "climb_parents [''A'' \<mapsto> 0, ''B'' \<mapsto> 1] (heap ex_cycle_world) [] (Some ''A'') = None"
    by (rule climb_parents_cycle [where na = 0 and nb = 1 and b = "''B''"])
       (simp_all add: ex_cycle_world_def world_of_def heap_of_def SelectionData_init_def)
  then show ?thesis
    by (simp add: get_selection_path_str_def ex_cycle_lookup)
qed

text \<open>
  C8, amended.  When the parent pointers that resolve form no cycle (I3), the walk ends for
  every starting id, and \<^verbatim>\<open>get_selection_path_str\<close> returns a string without raising.
\<close>

theorem path_walk_terminates_if_acyclic:
  assumes "acyclic (parent_rel w)"
  shows "\<exists>s. get_selection_path_str w selection_id include_last = Some (Returned s)"
proof (cases "build_id_lookup (heap w) (model w) selection_id = None")
  case True
  then show ?thesis by (simp add: get_selection_path_str_def)
next
  case False
  have "wf (parent_rel w)"
    using finite_parent_rel assms by (rule finite_acyclic_wf)
  then have "wf {(p, c). \<exists>node. build_id_lookup (heap w) (model w) c = Some node
                \<and> parent (heap w node) = Some p
                \<and> build_id_lookup (heap w) (model w) p \<noteq> None}"
    by (simp add: parent_rel_def)
  from climb_parents_returns [OF this False, of "[]"]
  obtain path where
    "climb_parents (build_id_lookup (heap w) (model w)) (heap w) [] (Some selection_id)
       = Some (Returned (selection_id # path))"
    by auto
  then show ?thesis using False
    by (simp add: get_selection_path_str_def Let_def split: list.splits)
qed

theorem path_walk_terminates_if_acyclic_witness:
  "acyclic (parent_rel ex_tree_world)
   \<and> (\<exists>s. get_selection_path_str ex_tree_world ''B'' True = Some (Returned s))"
  using path_walk_terminates_if_acyclic [OF ex_tree_acyclic, of "''B''" True] ex_tree_acyclic
  by blast

text \<open>
  C4.  The claim fails on a store whose keys are not in ascending order.  \<^verbatim>\<open>Insert(A)\<close>,
  \<^verbatim>\<open>Insert(B)\<close> on page 5 and a \<^verbatim>\<open>MoveBatch\<close> of \<open>B\<close> to page 3 give the key order 5, 3
  (\<^verbatim>\<open>_apply_edit\<close> appends a new key).  \<^verbatim>\<open>Insert(R)\<close> on the new page 4 moves key 5 behind
  key 4, and the \<^verbatim>\<open>undo\<close> only deletes key 4: the order is 3, 5.
\<close>

theorem Insert_undo_reorders_pages:
  "contiguity ex_unsorted_world \<and> key_presence ex_unsorted_world
   \<and> model ex_unsorted_world = [(5, [0]), (3, [2])]
   \<and> (case InsertCmd_redo (InsertCmd_init 3) ex_unsorted_world of (c, w1) \<Rightarrow>
         model w1 = [(3, [2]), (4, [3]), (5, [0])]
       \<and> (case InsertCmd_undo c w1 of (res, w2) \<Rightarrow>
             res = Returned () \<and> model w2 = [(3, [2]), (5, [0])]
           \<and> store_view w2 \<noteq> store_view ex_unsorted_world))"
  by code_simp

text \<open>
  C4, amended.  The store has its keys in ascending order, every record carries its page
  and position (I2), no page list is empty (I4), and the \<open>idx\<close> declared by \<open>r\<close> is negative
  or at most the length of the list of its page.  Then \<^verbatim>\<open>Insert(r)\<close> followed by its
  \<^verbatim>\<open>undo\<close> gives back the dictionary, key for key and item for item, and every record of the
  store has the fields it had.
\<close>

theorem Insert_undo_restores:
  assumes srt: "sorted_wrt (<) (map fst (model w))"
    and cont: "contiguity w" and kp: "key_presence w"
    and rng: "case map_of (model w) (page (heap w r)) of
                None \<Rightarrow> True | Some arr \<Rightarrow> idx (heap w r) \<le> int (length arr)"
  shows "case InsertCmd_redo (InsertCmd_init r) w of (c, w1) \<Rightarrow>
           (case InsertCmd_undo c w1 of (res, w2) \<Rightarrow>
              res = Returned () \<and> model w2 = model w \<and> store_view w2 = store_view w)"
proof (cases "map_of (model w) (page (heap w r))")
  case None
  let ?key = "page (heap w r)"
  let ?L = "filter (\<lambda>p. fst p < ?key) (model w)" and ?G = "filter (\<lambda>p. ?key < fst p) (model w)"
  from None have new: "?key \<notin> fst ` set (model w)" by (simp add: map_of_eq_None_iff)
  have ins: "insert_ordered w r None None = ((?key, 0), w\<lparr>model := ?L @ [(?key, [r])] @ ?G\<rparr>)"
    by (rule insert_ordered_new_key [OF srt _ new]) simp
  have split: "model w = ?L @ ?G" using srt new by (rule sorted_split)
  have kL: "?key \<notin> fst ` set ?L" and kG: "?key \<notin> fst ` set ?G" by auto
  have look: "map_of (?L @ [(?key, [r])] @ ?G) ?key = Some [r]"
  proof -
    from kL have "map_of ?L ?key = None" by (simp add: map_of_eq_None_iff)
    then show ?thesis by (simp add: map_add_def)
  qed
  have del: "AList.delete ?key (?L @ [(?key, [r])] @ ?G) = model w"
  proof -
    have "AList.delete ?key (?L @ [(?key, [r])] @ ?G) = AList.delete ?key ?L @ AList.delete ?key ?G"
      by (simp add: AList.delete_eq)
    also have "\<dots> = ?L @ ?G" using kL kG by simp
    finally show ?thesis using split by simp
  qed
  have "undo_insert_ordered (w\<lparr>model := ?L @ [(?key, [r])] @ ?G\<rparr>) ?key 0 = (Returned (), w)"
    using look del None
    by (simp add: undo_insert_ordered_def list_pop_def py_index_def Let_def
        AList.delete_update_same update_page_indexes_def od_get_def)
  with ins show ?thesis
    by (simp add: InsertCmd_redo_def InsertCmd_init_def InsertCmd_undo_def)
next
  case (Some arr)
  let ?key = "page (heap w r)"
  from srt have dk: "distinct (map fst (model w))" by (simp add: strict_sorted_iff)
  from kp Some have ne: "arr \<noteq> []" by (rule key_presence_nonempty)
  from rng Some have le: "idx (heap w r) \<le> int (length arr)" by simp
  show ?thesis
  proof (cases "idx (heap w r) < 0")
    case True
    have "case undo_insert_ordered
                (w\<lparr>heap := update_page_indexes (heap w) (AList.update ?key (arr @ [r]) (model w)) ?key,
                   model := AList.update ?key (arr @ [r]) (model w)\<rparr>) ?key (int (length (arr @ [r])) - 1)
         of (res, w2) \<Rightarrow> res = Returned () \<and> model w2 = model w \<and> store_view w2 = store_view w"
      by (rule undo_after_insert_existing [OF cont dk Some ne _ list_pop_append_last]) simp
    with True Some show ?thesis
      by (simp add: InsertCmd_redo_def InsertCmd_init_def InsertCmd_undo_def insert_ordered_def Let_def)
  next
    case False
    then have ge: "0 \<le> idx (heap w r)" by simp
    have "case undo_insert_ordered
                (w\<lparr>heap := update_page_indexes (heap w)
                     (AList.update ?key (list_insert arr (idx (heap w r)) r) (model w)) ?key,
                   model := AList.update ?key (list_insert arr (idx (heap w r)) r) (model w)\<rparr>)
                ?key (idx (heap w r))
         of (res, w2) \<Rightarrow> res = Returned () \<and> model w2 = model w \<and> store_view w2 = store_view w"
      by (rule undo_after_insert_existing
            [OF cont dk Some ne set_list_insert list_pop_list_insert [OF ge le]])
    with False Some show ?thesis
      by (simp add: InsertCmd_redo_def InsertCmd_init_def InsertCmd_undo_def insert_ordered_def Let_def)
  qed
qed

theorem Insert_undo_restores_witness:
  "sorted_wrt (<) (map fst (model ex_world)) \<and> contiguity ex_world \<and> key_presence ex_world
   \<and> (case map_of (model ex_world) (page (heap ex_world 2)) of
         None \<Rightarrow> True | Some arr \<Rightarrow> idx (heap ex_world 2) \<le> int (length arr))
   \<and> (case InsertCmd_redo (InsertCmd_init 2) ex_world of (c, w1) \<Rightarrow>
         (case InsertCmd_undo c w1 of (res, w2) \<Rightarrow>
            res = Returned () \<and> model w2 = model ex_world \<and> store_view w2 = store_view ex_world))"
proof -
  have h1: "sorted_wrt (<) (map fst (model ex_world))" by code_simp
  have h2: "contiguity ex_world" by code_simp
  have h3: "key_presence ex_world" by code_simp
  have h4: "case map_of (model ex_world) (page (heap ex_world 2)) of
              None \<Rightarrow> True | Some arr \<Rightarrow> idx (heap ex_world 2) \<le> int (length arr)"
    by code_simp
  from Insert_undo_restores [OF h1 h2 h3 h4] h1 h2 h3 h4 show ?thesis by blast
qed

text \<open>
  C3.  The claim fails on a store in which \<open>A\<close> does not carry its position.  After
  \<^verbatim>\<open>Insert\<close> of \<open>Z\<close>, \<open>A\<close>, \<open>D\<close> (page 1) and \<open>B\<close>, \<open>C\<close> (page 2) and \<^verbatim>\<open>RemoveBatch([Z])\<close>, the
  root \<open>A\<close> is at index 0 of page 1 with \<open>idx = 1\<close>.  \<^verbatim>\<open>Remove(A)\<close> leaves \<open>[D]\<close>, and the
  \<^verbatim>\<open>undo\<close> inserts \<open>A\<close> at the index of its \<^verbatim>\<open>data\<close>: page 1 is \<open>[D, A]\<close>, not \<open>[A, D]\<close>.
\<close>

theorem Remove_undo_uses_declared_idx:
  "uniqueness ex_stale_family_world
   \<and> map_of (model ex_stale_family_world) 1 = Some [1, 2]
   \<and> idx (heap ex_stale_family_world 1) = 1
   \<and> parent (heap ex_stale_family_world 1) = None
   \<and> children (heap ex_stale_family_world 1)
        = [sel_id (heap ex_stale_family_world 3), sel_id (heap ex_stale_family_world 4)]
   \<and> parent (heap ex_stale_family_world 3) = Some (sel_id (heap ex_stale_family_world 1))
   \<and> parent (heap ex_stale_family_world 4) = Some (sel_id (heap ex_stale_family_world 1))
   \<and> (case RemoveCmd_redo (RemoveCmd_init 1) ex_stale_family_world of (cmd, w1) \<Rightarrow>
         map_of (model w1) 1 = Some [2]
       \<and> map_of (model (RemoveCmd_undo cmd w1)) 1 = Some [2, 1])"
  by code_simp

text \<open>
  Nor does it hold when two records share the id of \<open>A\<close>: the loop goes on after it has
  emptied a page, so \<^verbatim>\<open>Remove(A)\<close> takes both records out and the \<^verbatim>\<open>undo\<close> brings one back.
\<close>

lemma Remove_with_duplicate_id:
  "model ex_dup_family_world = [(1, [0]), (2, [1, 2, 3])]
   \<and> contiguity ex_dup_family_world
   \<and> (case RemoveCmd_redo (RemoveCmd_init 1) ex_dup_family_world of (cmd, w1) \<Rightarrow>
         model w1 = [(2, [2, 3])] \<and> model (RemoveCmd_undo cmd w1) = [(2, [1, 2, 3])])"
  by code_simp

text \<open>
  C3, amended.  The ids of the store are unique (I1); \<open>A\<close> is the item at index \<open>i\<close> of page
  \<open>p\<close> and carries that page and index (I2); it is a root whose \<open>children\<close> are the ids of
  \<open>B\<close> and \<open>C\<close>, two records of the store with parent \<open>A\<close>.  \<^verbatim>\<open>Remove(A)\<close> takes exactly \<open>A\<close>
  out of the store and leaves \<open>B\<close> and \<open>C\<close> without parent.  Its \<^verbatim>\<open>undo\<close> gives page \<open>p\<close> the
  list it had, so \<open>A\<close> is back at index \<open>i\<close>, unchanged, and \<open>B\<close> and \<open>C\<close> have parent \<open>A\<close>
  again.
\<close>

theorem Remove_reparents_children_and_undo_restores:
  assumes dk: "distinct (map fst (model w))" and uq: "uniqueness w"
    and at: "map_of (model w) p = Some arr" "i < length arr" "arr ! i = a"
    and pos: "page (heap w a) = p" "idx (heap w a) = int i"
    and root: "parent (heap w a) = None"
    and ch: "children (heap w a) = [sel_id (heap w b), sel_id (heap w c)]"
    and bc: "b \<in> set (all_items w)" "c \<in> set (all_items w)"
    and par: "parent (heap w b) = Some (sel_id (heap w a))"
             "parent (heap w c) = Some (sel_id (heap w a))"
  shows "case RemoveCmd_redo (RemoveCmd_init a) w of (cmd, w1) \<Rightarrow>
           mset (all_items w1) = mset (all_items w) - {#a#} \<and> a \<notin> set (all_items w1)
         \<and> parent (heap w1 b) = None \<and> parent (heap w1 c) = None
         \<and> map_of (model (RemoveCmd_undo cmd w1)) p = Some arr
         \<and> heap (RemoveCmd_undo cmd w1) a = heap w a
         \<and> parent (heap (RemoveCmd_undo cmd w1) b) = Some (sel_id (heap w a))
         \<and> parent (heap (RemoveCmd_undo cmd w1) c) = Some (sel_id (heap w a))"
proof -
  let ?h = "heap w"
  from at(1) have "(p, arr) \<in> set (model w)" by (rule map_of_SomeD)
  then obtain pre post where split: "model w = pre @ (p, arr) # post"
    by (auto dest: split_list)
  with dk have pk: "p \<notin> fst ` set pre" "p \<notin> fst ` set post" by auto
  from at have a: "a \<in> set arr" by auto
  from par root have ne: "b \<noteq> a" "c \<noteq> a" by auto
  define h2 where "h2 = ?h(b := (?h b)\<lparr>parent := parent (?h a)\<rparr>,
                          c := ((?h(b := (?h b)\<lparr>parent := parent (?h a)\<rparr>)) c)
                                  \<lparr>parent := parent (?h a)\<rparr>)"
  define H where "H = (if remove1 a arr = [] then h2 else update_loop h2 p 0 (remove1 a arr))"
  define D where "D = (if remove1 a arr = [] then pre @ post else pre @ (p, remove1 a arr) # post)"
  have rr: "remove_and_relink_children w a = ([b, c], w\<lparr>heap := H, model := D\<rparr>)"
    unfolding H_def D_def h2_def
    by (rule remove_and_relink_children_unique [OF uq split pk a ch bc])
  let ?w1 = "w\<lparr>heap := H, model := D\<rparr>"
  let ?cmd = "\<lparr>rm_value = a, rm_node_children = [b, c]\<rparr>"
  have redo: "RemoveCmd_redo (RemoveCmd_init a) w = (?cmd, ?w1)"
    by (simp add: RemoveCmd_redo_def RemoveCmd_init_def rr)
  \<comment> \<open>the store after the removal\<close>
  from uq have dids: "distinct (map (\<lambda>r. sel_id (?h r)) (all_items w))"
    by (simp add: uniqueness_def store_ids_def)
  then have dall: "distinct (all_items w)" by (simp add: distinct_map)
  have items: "all_items w = concat (map snd pre) @ arr @ concat (map snd post)"
    by (simp add: all_items_def split)
  have items1: "all_items ?w1 = concat (map snd pre) @ remove1 a arr @ concat (map snd post)"
    by (simp add: all_items_def D_def)
  from dall items have darr: "distinct arr" by simp
  have m1: "mset (all_items ?w1) = mset (all_items w) - {#a#}"
    using a by (simp add: items items1)
  have n1: "a \<notin> set (all_items ?w1)"
    using dall a unfolding items items1 by auto
  have h2a: "h2 a = ?h a" using ne by (simp add: h2_def)
  have Ha: "H a = ?h a"
    using darr a h2a by (simp add: H_def update_loop_notin)
  have pH: "parent (H x) = parent (h2 x)" for x by (simp add: H_def)
  have pb: "parent (H b) = None" "parent (H c) = None"
    using root by (simp_all add: pH h2_def)
  \<comment> \<open>the re-insertion\<close>
  define W where "W = snd (insert_ordered ?w1 a None None)"
  have ins: "map_of (model W) p = Some arr \<and> heap W a = ?h a"
  proof (cases "remove1 a arr = []")
    case True
    with a have arr: "arr = [a]" by (cases arr) (auto split: if_splits)
    from pk have "map_of pre p = None" "map_of post p = None"
      by (simp_all add: map_of_eq_None_iff)
    then have none: "map_of D p = None" using True by (simp add: D_def map_add_def)
    show ?thesis
      using none Ha pos arr
      by (simp add: W_def insert_ordered_def Let_def map_of_foldl_move_to_end AList.update_conv')
  next
    case False
    then have D: "D = pre @ (p, remove1 a arr) # post" by (simp add: D_def)
    have look: "map_of D p = Some (remove1 a arr)" unfolding D by (rule map_of_mid [OF pk(1)])
    have reins: "list_insert (remove1 a arr) (int i) a = arr"
      using list_insert_remove1 [OF darr at(2)] at(3) by simp
    have g: "od_get (AList.update p arr D) p = arr"
      by (simp add: od_get_def AList.update_conv')
    let ?h3 = "update_loop H p 0 arr"
    have "?h3 a = (H a)\<lparr>page := p, idx := 0 + int i\<rparr>"
      using update_loop_nth [OF darr at(2), of H p 0] at(3) by simp
    then have "?h3 a = ?h a" using Ha pos by simp
    then show ?thesis
      using look reins Ha pos g
      by (simp add: W_def insert_ordered_def Let_def AList.update_conv' update_page_indexes_def)
  qed
  define hu where
    "hu = foldl (\<lambda>h child. h(child := (h child)\<lparr>parent := Some (sel_id (h a))\<rparr>)) (heap W) [b, c]"
  have undo: "model (RemoveCmd_undo ?cmd ?w1) = model W" "heap (RemoveCmd_undo ?cmd ?w1) = hu"
    by (simp_all add: RemoveCmd_undo_def Let_def W_def hu_def)
  have ua: "hu a = ?h a" using ne ins by (simp add: hu_def)
  have ub: "parent (hu b) = Some (sel_id (?h a))" "parent (hu c) = Some (sel_id (?h a))"
    using ne ins by (simp_all add: hu_def)
  have c1: "map_of (model (RemoveCmd_undo ?cmd ?w1)) p = Some arr"
    using ins by (simp only: undo)
  have c2: "heap (RemoveCmd_undo ?cmd ?w1) a = ?h a" by (simp only: undo ua)
  have c3: "parent (heap (RemoveCmd_undo ?cmd ?w1) b) = Some (sel_id (?h a))"
    "parent (heap (RemoveCmd_undo ?cmd ?w1) c) = Some (sel_id (?h a))"
    by (simp_all only: undo ub)
  have c0: "parent (heap ?w1 b) = None" "parent (heap ?w1 c) = None"
    using pb by simp_all
  show ?thesis
    unfolding redo prod.case using m1 n1 c0 c1 c2 c3 by blast
qed

theorem Remove_reparents_children_and_undo_restores_witness:
  "distinct (map fst (model ex_family_world)) \<and> uniqueness ex_family_world
   \<and> map_of (model ex_family_world) 1 = Some [0, 1] \<and> (0::nat) < length [0::nat, 1]
   \<and> [0::nat, 1] ! 0 = 0
   \<and> page (heap ex_family_world 0) = 1 \<and> idx (heap ex_family_world 0) = int 0
   \<and> parent (heap ex_family_world 0) = None
   \<and> children (heap ex_family_world 0)
        = [sel_id (heap ex_family_world 1), sel_id (heap ex_family_world 2)]
   \<and> 1 \<in> set (all_items ex_family_world) \<and> 2 \<in> set (all_items ex_family_world)
   \<and> parent (heap ex_family_world 1) = Some (sel_id (heap ex_family_world 0))
   \<and> parent (heap ex_family_world 2) = Some (sel_id (heap ex_family_world 0))
   \<and> (case RemoveCmd_redo (RemoveCmd_init 0) ex_family_world of (cmd, w1) \<Rightarrow>
           mset (all_items w1) = mset (all_items ex_family_world) - {#0#}
         \<and> 0 \<notin> set (all_items w1)
         \<and> parent (heap w1 1) = None \<and> parent (heap w1 2) = None
         \<and> map_of (model (RemoveCmd_undo cmd w1)) 1 = Some [0, 1]
         \<and> heap (RemoveCmd_undo cmd w1) 0 = heap ex_family_world 0
         \<and> parent (heap (RemoveCmd_undo cmd w1) 1) = Some (sel_id (heap ex_family_world 0))
         \<and> parent (heap (RemoveCmd_undo cmd w1) 2) = Some (sel_id (heap ex_family_world 0)))"
proof -
  have h1: "distinct (map fst (model ex_family_world))" by code_simp
  have h2: "uniqueness ex_family_world" by code_simp
  have h3: "map_of (model ex_family_world) 1 = Some [0, 1]" by code_simp
  have h4: "(0::nat) < length [0::nat, 1]" by simp
  have h5: "[0::nat, 1] ! 0 = 0" by simp
  have h6: "page (heap ex_family_world 0) = 1" by code_simp
  have h7: "idx (heap ex_family_world 0) = int 0" by code_simp
  have h8: "parent (heap ex_family_world 0) = None" by code_simp
  have h9: "children (heap ex_family_world 0)
        = [sel_id (heap ex_family_world 1), sel_id (heap ex_family_world 2)]" by code_simp
  have h10: "1 \<in> set (all_items ex_family_world)" by code_simp
  have h11: "2 \<in> set (all_items ex_family_world)" by code_simp
  have h12: "parent (heap ex_family_world 1) = Some (sel_id (heap ex_family_world 0))" by code_simp
  have h13: "parent (heap ex_family_world 2) = Some (sel_id (heap ex_family_world 0))" by code_simp
  from Remove_reparents_children_and_undo_restores [OF h1 h2 h3 h4 h5 h6 h7 h8 h9 h10 h11 h12 h13]
    h1 h2 h3 h4 h5 h6 h7 h8 h9 h10 h11 h12 h13
  show ?thesis by blast
qed

text \<open>
  C2.  The claim fails on a store whose page 1 does not carry its positions.  After
  \<^verbatim>\<open>Insert\<close> of \<open>X\<close>, \<open>W\<close>, \<open>Z\<close> (page 1) and \<open>Y\<close> (page 2) and \<^verbatim>\<open>RemoveBatch([W])\<close>, \<open>X\<close> is at
  (page 1, index 0), \<open>Y\<close> at (page 2, index 0), and \<open>Z\<close> is at index 1 with \<open>idx = 2\<close>.  The
  exchange re-indexes page 1, and so does its \<^verbatim>\<open>undo\<close>: \<open>Z\<close> has \<open>idx = 1\<close> afterwards, and
  the store is not the original one.
\<close>

theorem MoveBatch_swap_undo_reindexes:
  "map_of (model ex_stale_swap_world) 1 = Some [0, 2]
   \<and> map_of (model ex_stale_swap_world) 2 = Some [3]
   \<and> page (heap ex_stale_swap_world 0) = 1 \<and> idx (heap ex_stale_swap_world 0) = 0
   \<and> page (heap ex_stale_swap_world 3) = 2 \<and> idx (heap ex_stale_swap_world 3) = 0
   \<and> idx (heap ex_stale_swap_world 2) = 2
   \<and> (case MoveAllCmd_init [\<lparr>editing_page = 1, editing_idx = 0, new_selection = 4\<rparr>,
                              \<lparr>editing_page = 2, editing_idx = 0, new_selection = 5\<rparr>]
               ex_stale_swap_world
       of (cmd, w0) \<Rightarrow>
           map_of (model (MoveAllCmd_redo cmd w0)) 1 = Some [5, 2]
         \<and> map_of (model (MoveAllCmd_redo cmd w0)) 2 = Some [4]
         \<and> idx (heap (MoveAllCmd_undo cmd (MoveAllCmd_redo cmd w0)) 2) = 1
         \<and> store_view (MoveAllCmd_undo cmd (MoveAllCmd_redo cmd w0))
              \<noteq> store_view ex_stale_swap_world)"
  by code_simp

text \<open>
  C2, amended.  The keys of the store are distinct and its items allocated; \<open>X\<close> is the head
  of page 1 and \<open>Y\<close> the head of page 2, and both pages carry their page and positions (I2).
  The two edits, in either order, replace \<open>X\<close> by a record \<open>X'\<close> with the id of \<open>X\<close> bound for
  (page 2, index 0) and \<open>Y\<close> by \<open>Y'\<close> with the id of \<open>Y\<close> bound for (page 1, index 0).  After
  \<^verbatim>\<open>redo\<close>, \<open>X'\<close> is the head of page 2 and \<open>Y'\<close> the head of page 1, each with the fields it
  declared, the keys are as before and the ids of the store are the same multiset; after
  the \<^verbatim>\<open>undo\<close> the store reads, by value, as it did at the start.
\<close>

theorem MoveBatch_swap_and_undo:
  assumes "wf_world w"
    and "map_of (model w) 1 = Some (x # xs)" and "map_of (model w) 2 = Some (y # ys)"
    and "page_contiguous (heap w) 1 (x # xs)" and "page_contiguous (heap w) 2 (y # ys)"
    and "x' < nxt w" and "sel_id (heap w x') = sel_id (heap w x)"
    and "page (heap w x') = 2" and "idx (heap w x') = 0"
    and "y' < nxt w" and "sel_id (heap w y') = sel_id (heap w y)"
    and "page (heap w y') = 1" and "idx (heap w y') = 0"
    and "editing = [\<lparr>editing_page = 1, editing_idx = 0, new_selection = x'\<rparr>,
                    \<lparr>editing_page = 2, editing_idx = 0, new_selection = y'\<rparr>]
       \<or> editing = [\<lparr>editing_page = 2, editing_idx = 0, new_selection = y'\<rparr>,
                    \<lparr>editing_page = 1, editing_idx = 0, new_selection = x'\<rparr>]"
  shows "case MoveAllCmd_init editing w of (cmd, w0) \<Rightarrow>
           map_of (model (MoveAllCmd_redo cmd w0)) 2 = Some (x' # ys)
         \<and> map_of (model (MoveAllCmd_redo cmd w0)) 1 = Some (y' # xs)
         \<and> heap (MoveAllCmd_redo cmd w0) x' = heap w x'
         \<and> heap (MoveAllCmd_redo cmd w0) y' = heap w y'
         \<and> map fst (model (MoveAllCmd_redo cmd w0)) = map fst (model w)
         \<and> mset (store_ids (MoveAllCmd_redo cmd w0)) = mset (store_ids w)
         \<and> store_view (MoveAllCmd_undo cmd (MoveAllCmd_redo cmd w0)) = store_view w"
proof -
  have ne: "(1::int) \<noteq> 2" "(2::int) \<noteq> 1" by simp_all
  from assms(14) show ?thesis
  proof
    assume e: "editing = [\<lparr>editing_page = 1, editing_idx = 0, new_selection = x'\<rparr>,
                          \<lparr>editing_page = 2, editing_idx = 0, new_selection = y'\<rparr>]"
    from MoveBatch_swap [OF assms(1) ne(1) assms(2-13)]
    show ?thesis unfolding e by (auto simp: AList.update_conv' split: prod.splits)
  next
    assume e: "editing = [\<lparr>editing_page = 2, editing_idx = 0, new_selection = y'\<rparr>,
                          \<lparr>editing_page = 1, editing_idx = 0, new_selection = x'\<rparr>]"
    from MoveBatch_swap [OF assms(1) ne(2) assms(3) assms(2) assms(5) assms(4) assms(10-13) assms(6-9)]
    show ?thesis unfolding e by (auto simp: AList.update_conv' split: prod.splits)
  qed
qed

theorem MoveBatch_swap_and_undo_witness:
  "wf_world ex_swap_world
   \<and> map_of (model ex_swap_world) 1 = Some (0 # [4]) \<and> map_of (model ex_swap_world) 2 = Some (1 # [])
   \<and> page_contiguous (heap ex_swap_world) 1 (0 # [4])
   \<and> page_contiguous (heap ex_swap_world) 2 (1 # [])
   \<and> 2 < nxt ex_swap_world \<and> sel_id (heap ex_swap_world 2) = sel_id (heap ex_swap_world 0)
   \<and> page (heap ex_swap_world 2) = 2 \<and> idx (heap ex_swap_world 2) = 0
   \<and> 3 < nxt ex_swap_world \<and> sel_id (heap ex_swap_world 3) = sel_id (heap ex_swap_world 1)
   \<and> page (heap ex_swap_world 3) = 1 \<and> idx (heap ex_swap_world 3) = 0
   \<and> (case MoveAllCmd_init [\<lparr>editing_page = 1, editing_idx = 0, new_selection = 2\<rparr>,
                              \<lparr>editing_page = 2, editing_idx = 0, new_selection = 3\<rparr>] ex_swap_world
       of (cmd, w0) \<Rightarrow>
           map_of (model (MoveAllCmd_redo cmd w0)) 2 = Some (2 # [])
         \<and> map_of (model (MoveAllCmd_redo cmd w0)) 1 = Some (3 # [4])
         \<and> heap (MoveAllCmd_redo cmd w0) 2 = heap ex_swap_world 2
         \<and> heap (MoveAllCmd_redo cmd w0) 3 = heap ex_swap_world 3
         \<and> map fst (model (MoveAllCmd_redo cmd w0)) = map fst (model ex_swap_world)
         \<and> mset (store_ids (MoveAllCmd_redo cmd w0)) = mset (store_ids ex_swap_world)
         \<and> store_view (MoveAllCmd_undo cmd (MoveAllCmd_redo cmd w0)) = store_view ex_swap_world)"
proof -
  have h1: "wf_world ex_swap_world" by code_simp
  have h2: "map_of (model ex_swap_world) 1 = Some (0 # [4])" by code_simp
  have h3: "map_of (model ex_swap_world) 2 = Some (1 # [])" by code_simp
  have h4: "page_contiguous (heap ex_swap_world) 1 (0 # [4])" by code_simp
  have h5: "page_contiguous (heap ex_swap_world) 2 (1 # [])" by code_simp
  have h6: "2 < nxt ex_swap_world" by code_simp
  have h7: "sel_id (heap ex_swap_world 2) = sel_id (heap ex_swap_world 0)" by code_simp
  have h8: "page (heap ex_swap_world 2) = 2" by code_simp
  have h9: "idx (heap ex_swap_world 2) = 0" by code_simp
  have h10: "3 < nxt ex_swap_world" by code_simp
  have h11: "sel_id (heap ex_swap_world 3) = sel_id (heap ex_swap_world 1)" by code_simp
  have h12: "page (heap ex_swap_world 3) = 1" by code_simp
  have h13: "idx (heap ex_swap_world 3) = 0" by code_simp
  have h14: "[\<lparr>editing_page = 1, editing_idx = 0, new_selection = 2\<rparr>,
              \<lparr>editing_page = 2, editing_idx = 0, new_selection = 3\<rparr>]
           = [\<lparr>editing_page = 1, editing_idx = 0, new_selection = 2\<rparr>,
              \<lparr>editing_page = 2, editing_idx = 0, new_selection = 3\<rparr>]
         \<or> [\<lparr>editing_page = 1, editing_idx = 0, new_selection = 2\<rparr>,
              \<lparr>editing_page = 2, editing_idx = 0, new_selection = 3\<rparr>]
           = [\<lparr>editing_page = 2, editing_idx = 0, new_selection = 3\<rparr>,
              \<lparr>editing_page = 1, editing_idx = 0, new_selection = 2\<rparr>]" by simp
  from MoveBatch_swap_and_undo [OF h1 h2 h3 h4 h5 h6 h7 h8 h9 h10 h11 h12 h13 h14]
    h1 h2 h3 h4 h5 h6 h7 h8 h9 h10 h11 h12 h13
  show ?thesis by blast
qed

end
